theory Spec2Isabelle
  imports Main "HOL-Library.Word"
begin

unbundle bit_operations_syntax

section \<open>The sample-pack binary codec of \<open>src/js/parsers/samples_parser.ts\<close>\<close>

text \<open>
  The codec is TypeScript. Its numbers are modelled as \<^typ>\<open>int\<close> (the codec only ever
  sees integers: byte values, counts and MIDI fields); non-integral and non-finite
  doubles are outside the model. A thrown exception is the \<open>Inl\<close> branch of a sum,
  and the mutable \<open>ByteArray\<close> is passed and returned explicitly.
\<close>

subsection \<open>JavaScript's 32-bit bitwise operators\<close>

text \<open>
  \<open>&\<close>, \<open>|\<close>, \<open><<\<close> and \<open>>>\<close> convert their operands with ToInt32 and give a signed
  32-bit result; \<open>>>>\<close> converts its left operand with ToUint32. A shift count is
  taken modulo 32.
\<close>

definition ToInt32 :: "int \<Rightarrow> int" where
  "ToInt32 x = signed_take_bit 31 x"

definition ToUint32 :: "int \<Rightarrow> int" where
  "ToUint32 x = take_bit 32 x"

definition js_and :: "int \<Rightarrow> int \<Rightarrow> int" where
  "js_and a b = ToInt32 a AND ToInt32 b"

definition js_or :: "int \<Rightarrow> int \<Rightarrow> int" where
  "js_or a b = ToInt32 a OR ToInt32 b"

definition js_shl :: "int \<Rightarrow> int \<Rightarrow> int" where
  "js_shl a b = ToInt32 (push_bit (nat (ToUint32 b AND 31)) (ToInt32 a))"

definition js_sar :: "int \<Rightarrow> int \<Rightarrow> int" where
  "js_sar a b = drop_bit (nat (ToUint32 b AND 31)) (ToInt32 a)"

definition js_shr :: "int \<Rightarrow> int \<Rightarrow> int" where
  "js_shr a b = drop_bit (nat (ToUint32 b AND 31)) (ToUint32 a)"

subsection \<open>Constants, errors and the byte array\<close>

definition NUM_PAGES :: nat where
  "NUM_PAGES = 10"

definition LOOPS_PER_PAGE :: nat where
  "LOOPS_PER_PAGE = 15"

text \<open>
  Every \<open>throw\<close> of the file is a \<open>RangeError\<close>; the message tells the throwing
  method apart and, for the push methods, carries the rejected value. Reading a
  property of \<open>undefined\<close> (a page that is not there) is a \<open>TypeError\<close>.
\<close>

datatype message =
    OutOfRange8 int
  | OutOfRange16 int
  | OutOfRange32 int
  | PopEmpty
  | NotEnough16
  | NotEnough32

datatype error = RangeError message | TypeError

type_synonym ByteArray = "int list"

type_synonym Uint8Array = "8 word list"

definition bindE :: "error + 'a \<Rightarrow> ('a \<Rightarrow> error + 'b) \<Rightarrow> error + 'b" where
  "bindE m f = (case m of Inl e \<Rightarrow> Inl e | Inr x \<Rightarrow> f x)"

text \<open>\<open>xs[i]\<close> on a JavaScript array: \<open>undefined\<close> (here \<open>None\<close>) past the end.\<close>

definition index :: "'a list \<Rightarrow> nat \<Rightarrow> 'a option" where
  "index xs i = (if i < length xs then Some (xs ! i) else None)"

definition push8 :: "int \<Rightarrow> ByteArray \<Rightarrow> error + ByteArray" where
  "push8 v d =
     (if v < 0 \<or> v > 0xFF then Inl (RangeError (OutOfRange8 v))
      else Inr (d @ [js_and v 0xFF]))"

definition push16 :: "int \<Rightarrow> ByteArray \<Rightarrow> error + ByteArray" where
  "push16 v d =
     (if v < 0 \<or> v > 0xFFFF then Inl (RangeError (OutOfRange16 v))
      else Inr (d @ [js_and v 0xFF, js_and (js_sar v 8) 0xFF]))"

definition push32 :: "int \<Rightarrow> ByteArray \<Rightarrow> error + ByteArray" where
  "push32 v d =
     (if v < 0 \<or> v > 0xFFFFFFFF then Inl (RangeError (OutOfRange32 v))
      else Inr (d @ [js_and v 0xFF, js_and (js_sar v 8) 0xFF,
                     js_and (js_sar v 16) 0xFF, js_and (js_sar v 24) 0xFF]))"

fun pop8 :: "ByteArray \<Rightarrow> error + int \<times> ByteArray" where
  "pop8 [] = Inl (RangeError PopEmpty)"
| "pop8 (x # d) = Inr (x, d)"

fun pop16 :: "ByteArray \<Rightarrow> error + int \<times> ByteArray" where
  "pop16 (lsb # msb # d) = Inr (js_or lsb (js_shl msb 8), d)"
| "pop16 d = Inl (RangeError NotEnough16)"

fun pop32 :: "ByteArray \<Rightarrow> error + int \<times> ByteArray" where
  "pop32 (b0 # b1 # b2 # b3 # d) =
     Inr (js_shr (js_or (js_or (js_or b0 (js_shl b1 8)) (js_shl b2 16)) (js_shl b3 24)) 0, d)"
| "pop32 d = Inl (RangeError NotEnough32)"

definition add :: "ByteArray \<Rightarrow> ByteArray \<Rightarrow> ByteArray" where
  "add d other = d @ other"

text \<open>
  \<open>ByteArray.from\<close> copies a \<open>Uint8Array\<close> into a number array, and
  \<open>Uint8Array.from\<close> stores each number modulo 256.
\<close>

definition ByteArray_from :: "Uint8Array \<Rightarrow> ByteArray" where
  "ByteArray_from array = map uint array"

definition Uint8Array_from :: "ByteArray \<Rightarrow> Uint8Array" where
  "Uint8Array_from d = map word_of_int d"

subsection \<open>The data model\<close>

text \<open>
  The field \<open>note\<close> is written \<open>note_val\<close> and the page's \<open>id\<close> is \<open>page_id\<close>. A slot of
  \<open>loops\<close> holds a loop or \<open>null\<close> (\<open>None\<close>). The reserved words are optional in the
  interface.
\<close>

record NoteEvent =
  note_val :: int
  state :: int
  velocity :: int

type_synonym NoteEventTime = "int \<times> NoteEvent"

record LoopData =
  length_beats :: int
  events :: "NoteEventTime list"

record Page =
  page_id :: int
  loops :: "LoopData option list"

record SamplePack =
  reserved0 :: "int option"
  reserved1 :: "int option"
  reserved2 :: "int option"
  reserved3 :: "int option"
  pages :: "Page list"

text \<open>
  An absent reserved word reaches \<open>push32\<close> as \<open>undefined\<close>: both range comparisons are
  false for it and every bitwise operator reads it as 0, so it is written as the
  number 0.
\<close>

definition number_or_undefined :: "int option \<Rightarrow> int" where
  "number_or_undefined v = (case v of None \<Rightarrow> 0 | Some n \<Rightarrow> n)"

subsection \<open>\<open>samplesParser_encode\<close>\<close>

fun encode_event :: "NoteEventTime \<Rightarrow> ByteArray \<Rightarrow> error + ByteArray" where
  "encode_event (ticks, noteEvent) loopData =
     bindE (push8 (js_and (note_val noteEvent) 0x7F) loopData) (\<lambda>loopData.
     bindE (push8 (js_or (js_shl (state noteEvent) 7) (js_and (velocity noteEvent) 0x7F)) loopData)
       (\<lambda>loopData. push16 ticks loopData))"

fun encode_events :: "NoteEventTime list \<Rightarrow> ByteArray \<Rightarrow> error + ByteArray" where
  "encode_events [] loopData = Inr loopData"
| "encode_events (event # rest) loopData =
     bindE (encode_event event loopData) (encode_events rest)"

definition encode_loop :: "LoopData \<Rightarrow> ByteArray \<Rightarrow> error + ByteArray" where
  "encode_loop loop loopData =
     bindE (push8 (length_beats loop) loopData) (\<lambda>loopData.
     bindE (push8 (int (length (events loop))) loopData) (encode_events (events loop)))"

text \<open>
  The inner \<open>for\<close> over \<open>loop_idx\<close>; the state is the pair of side buffers
  \<open>(loopOffsets, loopData)\<close>. \<open>loop == null\<close> holds for \<open>null\<close> and for \<open>undefined\<close>.
\<close>

fun encode_loops ::
  "LoopData option list \<Rightarrow> nat list \<Rightarrow> ByteArray \<times> ByteArray \<Rightarrow> error + ByteArray \<times> ByteArray"
where
  "encode_loops ls [] st = Inr st"
| "encode_loops ls (loop_idx # rest) (loopOffsets, loopData) =
     (case index ls loop_idx of
        None \<Rightarrow>
          bindE (push16 0xFFFF loopOffsets) (\<lambda>loopOffsets.
          encode_loops ls rest (loopOffsets, loopData))
      | Some None \<Rightarrow>
          bindE (push16 0xFFFF loopOffsets) (\<lambda>loopOffsets.
          encode_loops ls rest (loopOffsets, loopData))
      | Some (Some loop) \<Rightarrow>
          bindE (push16 (int (length loopData)) loopOffsets) (\<lambda>loopOffsets.
          bindE (encode_loop loop loopData) (\<lambda>loopData.
          encode_loops ls rest (loopOffsets, loopData))))"

fun encode_pages ::
  "Page list \<Rightarrow> nat list \<Rightarrow> ByteArray \<times> ByteArray \<Rightarrow> error + ByteArray \<times> ByteArray"
where
  "encode_pages ps [] st = Inr st"
| "encode_pages ps (page_idx # rest) st =
     (case index ps page_idx of
        None \<Rightarrow> Inl TypeError
      | Some page \<Rightarrow>
          bindE (encode_loops (loops page) [0..<LOOPS_PER_PAGE] st) (encode_pages ps rest))"

fun encode_page_ids :: "Page list \<Rightarrow> nat list \<Rightarrow> ByteArray \<Rightarrow> error + ByteArray" where
  "encode_page_ids ps [] d = Inr d"
| "encode_page_ids ps (i # rest) d =
     (case index ps i of
        None \<Rightarrow> Inl TypeError
      | Some page \<Rightarrow> bindE (push16 (page_id page) d) (encode_page_ids ps rest))"

definition samplesParser_encode :: "SamplePack \<Rightarrow> error + Uint8Array" where
  "samplesParser_encode samplePack =
     bindE (push32 (number_or_undefined (reserved0 samplePack)) []) (\<lambda>d.
     bindE (push32 (number_or_undefined (reserved1 samplePack)) d) (\<lambda>d.
     bindE (push32 (number_or_undefined (reserved2 samplePack)) d) (\<lambda>d.
     bindE (push32 (number_or_undefined (reserved3 samplePack)) d) (\<lambda>d.
     bindE (encode_page_ids (pages samplePack) [0..<NUM_PAGES] d) (\<lambda>d.
     bindE (encode_pages (pages samplePack) [0..<NUM_PAGES] ([], [])) (\<lambda>(loopOffsets, loopData).
     Inr (Uint8Array_from (add (add d loopOffsets) loopData))))))))"

subsection \<open>\<open>samplesParser_decode\<close>\<close>

fun decode_events :: "nat \<Rightarrow> ByteArray \<Rightarrow> error + NoteEventTime list \<times> ByteArray" where
  "decode_events 0 d = Inr ([], d)"
| "decode_events (Suc n) d =
     bindE (pop8 d) (\<lambda>(b, d).
     bindE (pop8 d) (\<lambda>(data, d).
     bindE (pop16 d) (\<lambda>(ticks, d).
     bindE (decode_events n d) (\<lambda>(rest, d).
     Inr ((ticks, \<lparr>note_val = js_and b 0x7F,
                   state = js_and (js_sar data 7) 0x01,
                   velocity = js_and data 0x7F\<rparr>) # rest, d)))))"

definition decode_loop :: "ByteArray \<Rightarrow> error + LoopData \<times> ByteArray" where
  "decode_loop d =
     bindE (pop8 d) (\<lambda>(beats, d).
     bindE (pop8 d) (\<lambda>(numEvents, d).
     bindE (decode_events (nat numEvents) d) (\<lambda>(evs, d).
     Inr (\<lparr>length_beats = beats, events = evs\<rparr>, d))))"

text \<open>
  The inner \<open>for\<close> of the decoder. The presence flag is read at
  \<open>page_idx * NUM_PAGES + loop_idx\<close>, as the source has it; \<open>== false\<close> is false for
  \<open>undefined\<close>.
\<close>

fun decode_loops ::
  "bool list \<Rightarrow> nat \<Rightarrow> nat list \<Rightarrow> ByteArray \<Rightarrow> error + LoopData option list \<times> ByteArray"
where
  "decode_loops loopExists page_idx [] d = Inr ([], d)"
| "decode_loops loopExists page_idx (loop_idx # rest) d =
     (if index loopExists (page_idx * NUM_PAGES + loop_idx) = Some False then
        bindE (decode_loops loopExists page_idx rest d) (\<lambda>(ls, d). Inr (None # ls, d))
      else
        bindE (decode_loop d) (\<lambda>(loop, d).
        bindE (decode_loops loopExists page_idx rest d) (\<lambda>(ls, d). Inr (Some loop # ls, d))))"

fun decode_pages ::
  "bool list \<Rightarrow> Page list \<Rightarrow> nat list \<Rightarrow> ByteArray \<Rightarrow> error + Page list \<times> ByteArray"
where
  "decode_pages loopExists ps [] d = Inr (ps, d)"
| "decode_pages loopExists ps (page_idx # rest) d =
     (case index ps page_idx of
        None \<Rightarrow> Inl TypeError
      | Some page \<Rightarrow>
          bindE (decode_loops loopExists page_idx [0..<LOOPS_PER_PAGE] d) (\<lambda>(ls, d).
          decode_pages loopExists (ps[page_idx := page\<lparr>loops := loops page @ ls\<rparr>]) rest d))"

fun decode_page_ids :: "nat \<Rightarrow> ByteArray \<Rightarrow> error + Page list \<times> ByteArray" where
  "decode_page_ids 0 d = Inr ([], d)"
| "decode_page_ids (Suc n) d =
     bindE (pop16 d) (\<lambda>(i, d).
     bindE (decode_page_ids n d) (\<lambda>(ps, d). Inr (\<lparr>page_id = i, loops = []\<rparr> # ps, d)))"

fun decode_loopExists :: "nat \<Rightarrow> ByteArray \<Rightarrow> error + bool list \<times> ByteArray" where
  "decode_loopExists 0 d = Inr ([], d)"
| "decode_loopExists (Suc n) d =
     bindE (pop16 d) (\<lambda>(v, d).
     bindE (decode_loopExists n d) (\<lambda>(ex, d).
     Inr ((if v = 0xFFFF then False else True) # ex, d)))"

definition samplesParser_decode :: "Uint8Array \<Rightarrow> error + SamplePack" where
  "samplesParser_decode packedData =
     bindE (pop32 (ByteArray_from packedData)) (\<lambda>(r0, d).
     bindE (pop32 d) (\<lambda>(r1, d).
     bindE (pop32 d) (\<lambda>(r2, d).
     bindE (pop32 d) (\<lambda>(r3, d).
     bindE (decode_page_ids NUM_PAGES d) (\<lambda>(ps, d).
     bindE (decode_loopExists (NUM_PAGES * LOOPS_PER_PAGE) d) (\<lambda>(loopExists, d).
     bindE (decode_pages loopExists ps [0..<NUM_PAGES] d) (\<lambda>(ps, d).
     Inr \<lparr>reserved0 = Some r0, reserved1 = Some r1, reserved2 = Some r2,
          reserved3 = Some r3, pages = ps\<rparr>)))))))"

subsection \<open>The size calculator\<close>

definition getPageByteSize :: "Page \<Rightarrow> nat" where
  "getPageByteSize page =
     fold (\<lambda>loop size.
             case loop of
               None \<Rightarrow> size
             | Some l \<Rightarrow> fold (\<lambda>_ size. size + 4) (events l) (size + 1 + 1))
          (loops page) 0"

definition getPackSize :: "SamplePack \<Rightarrow> nat" where
  "getPackSize pack = fold (\<lambda>page size. size + getPageByteSize page) (pages pack) 0"

subsection \<open>Notions used to state the properties\<close>

text \<open>
  What follows is not code of the repository. \<open>slot_at\<close> is the encoder's view of a slot
  (\<open>null\<close> and \<open>undefined\<close> both count as absent), \<open>pack_slots\<close> lists the 150 slots in
  the order the encoder visits them, and \<open>encode_slots\<close> is the double loop of the
  encoder run over that list (lemma \<open>encode_pages_slots\<close> shows it is the same
  computation).
\<close>

definition slot_at :: "LoopData option list \<Rightarrow> nat \<Rightarrow> LoopData option" where
  "slot_at ls i = (case index ls i of None \<Rightarrow> None | Some loop \<Rightarrow> loop)"

definition page_slots :: "Page \<Rightarrow> LoopData option list" where
  "page_slots page = map (slot_at (loops page)) [0..<LOOPS_PER_PAGE]"

definition pack_slots :: "SamplePack \<Rightarrow> LoopData option list" where
  "pack_slots pack = concat (map page_slots (take NUM_PAGES (pages pack)))"

fun encode_slots ::
  "LoopData option list \<Rightarrow> ByteArray \<times> ByteArray \<Rightarrow> error + ByteArray \<times> ByteArray"
where
  "encode_slots [] st = Inr st"
| "encode_slots (None # rest) (loopOffsets, loopData) =
     bindE (push16 0xFFFF loopOffsets) (\<lambda>loopOffsets.
     encode_slots rest (loopOffsets, loopData))"
| "encode_slots (Some loop # rest) (loopOffsets, loopData) =
     bindE (push16 (int (length loopData)) loopOffsets) (\<lambda>loopOffsets.
     bindE (encode_loop loop loopData) (\<lambda>loopData.
     encode_slots rest (loopOffsets, loopData)))"

definition loop_size :: "LoopData \<Rightarrow> nat" where
  "loop_size l = 2 + 4 * length (events l)"

fun slots_size :: "LoopData option list \<Rightarrow> nat" where
  "slots_size [] = 0"
| "slots_size (None # rest) = slots_size rest"
| "slots_size (Some l # rest) = loop_size l + slots_size rest"

text \<open>
  \<open>offsets_fit n sl\<close>: starting with \<open>n\<close> bytes of loop data, every offset that the
  slots \<open>sl\<close> make the encoder write passes the range check of \<open>push16\<close>.
\<close>

fun offsets_fit :: "nat \<Rightarrow> LoopData option list \<Rightarrow> bool" where
  "offsets_fit n [] = True"
| "offsets_fit n (None # rest) = offsets_fit n rest"
| "offsets_fit n (Some l # rest) = (n \<le> 0xFFFF \<and> offsets_fit (n + loop_size l) rest)"

definition is_byte :: "int \<Rightarrow> bool" where
  "is_byte b = (0 \<le> b \<and> b < 256)"

text \<open>The declared field widths.\<close>

definition valid_u32 :: "int option \<Rightarrow> bool" where
  "valid_u32 v = (case v of None \<Rightarrow> False | Some n \<Rightarrow> 0 \<le> n \<and> n \<le> 0xFFFFFFFF)"

definition ticks_ok :: "NoteEventTime \<Rightarrow> bool" where
  "ticks_ok ev = (0 \<le> fst ev \<and> fst ev \<le> 0xFFFF)"

definition state_ok :: "NoteEventTime \<Rightarrow> bool" where
  "state_ok ev = (state (snd ev) = 0 \<or> state (snd ev) = 1)"

definition valid_event :: "NoteEventTime \<Rightarrow> bool" where
  "valid_event ev =
     (ticks_ok ev \<and> state_ok ev \<and>
      0 \<le> note_val (snd ev) \<and> note_val (snd ev) \<le> 127 \<and>
      0 \<le> velocity (snd ev) \<and> velocity (snd ev) \<le> 127)"

definition beats_ok :: "LoopData \<Rightarrow> bool" where
  "beats_ok l = (0 \<le> length_beats l \<and> length_beats l \<le> 0xFF)"

text \<open>
  The two range checks of claim C4 (event count and tick offsets), and the fields of a
  loop that the encoder passes to \<open>push8\<close> besides them.
\<close>

definition counts_and_ticks_ok :: "LoopData \<Rightarrow> bool" where
  "counts_and_ticks_ok l = (length (events l) \<le> 255 \<and> list_all ticks_ok (events l))"

definition other_fields_ok :: "LoopData \<Rightarrow> bool" where
  "other_fields_ok l = (beats_ok l \<and> list_all state_ok (events l))"

definition encodable_slot :: "LoopData option \<Rightarrow> bool" where
  "encodable_slot s =
     (case s of None \<Rightarrow> True | Some l \<Rightarrow> other_fields_ok l \<and> counts_and_ticks_ok l)"

definition valid_loop :: "LoopData \<Rightarrow> bool" where
  "valid_loop l =
     (beats_ok l \<and> length (events l) \<le> 255 \<and> list_all valid_event (events l))"

definition valid_slot :: "LoopData option \<Rightarrow> bool" where
  "valid_slot s = (case s of None \<Rightarrow> True | Some l \<Rightarrow> valid_loop l)"

definition valid_page :: "Page \<Rightarrow> bool" where
  "valid_page page =
     (0 \<le> page_id page \<and> page_id page \<le> 0xFFFF \<and>
      length (loops page) \<le> LOOPS_PER_PAGE \<and> list_all valid_slot (loops page))"

definition valid_header :: "SamplePack \<Rightarrow> bool" where
  "valid_header pack =
     (valid_u32 (reserved0 pack) \<and> valid_u32 (reserved1 pack) \<and>
      valid_u32 (reserved2 pack) \<and> valid_u32 (reserved3 pack) \<and>
      length (pages pack) = NUM_PAGES \<and>
      list_all (\<lambda>page. 0 \<le> page_id page \<and> page_id page \<le> 0xFFFF) (pages pack))"

definition valid_pack :: "SamplePack \<Rightarrow> bool" where
  "valid_pack pack =
     (valid_header pack \<and> list_all valid_page (pages pack) \<and> getPackSize pack < 0xFFFF)"

text \<open>
  \<open>stored_loops\<close> lists the loops that are really stored in the pack, in page and slot
  order: the non-\<open>null\<close> entries among the first 15 of each \<open>loops\<close> array of the first
  ten pages. \<open>encode_loop_sequence\<close> runs the encoder's loop body over a list of loops,
  one after the other, on one loop-data buffer.
\<close>

fun present_loops :: "LoopData option list \<Rightarrow> LoopData list" where
  "present_loops [] = []"
| "present_loops (None # rest) = present_loops rest"
| "present_loops (Some loop # rest) = loop # present_loops rest"

definition stored_loops :: "SamplePack \<Rightarrow> LoopData list" where
  "stored_loops pack =
     concat (map (\<lambda>page. present_loops (take LOOPS_PER_PAGE (loops page)))
               (take NUM_PAGES (pages pack)))"

fun encode_loop_sequence :: "LoopData list \<Rightarrow> ByteArray \<Rightarrow> error + ByteArray" where
  "encode_loop_sequence [] loopData = Inr loopData"
| "encode_loop_sequence (loop # rest) loopData =
     bindE (encode_loop loop loopData) (encode_loop_sequence rest)"

text \<open>What an event looks like after a round trip: note and velocity cut to seven bits.\<close>

definition mask_event :: "NoteEventTime \<Rightarrow> NoteEventTime" where
  "mask_event ev =
     (fst ev, \<lparr>note_val = note_val (snd ev) mod 128, state = state (snd ev),
               velocity = velocity (snd ev) mod 128\<rparr>)"

subsection \<open>Concrete packs\<close>

text \<open>
  \<open>generateDummyPage2\<close> is the page of that name in the source; its \<open>loops\<close> array has
  two entries. \<open>emptyPage\<close> is the page \<open>generateDummySamples\<close> fills the pack with, and
  \<open>dummySamples\<close> is the pack of \<open>generateDummySamples\<close> with page 2 set and page 1 (the
  15 loops of \<open>generateOGPage\<close>) left empty. \<open>single_loop_pack p s l\<close> holds the one loop
  \<open>l\<close> at page \<open>p\<close>, slot \<open>s\<close>.
\<close>

definition generateDummyPage2 :: Page where
  "generateDummyPage2 =
     \<lparr>page_id = 0xBEEF,
      loops =
       [Some \<lparr>length_beats = 2,
         events =
          [(0, \<lparr>note_val = 42, state = 1, velocity = 59\<rparr>),
           (0, \<lparr>note_val = 36, state = 1, velocity = 81\<rparr>),
           (12, \<lparr>note_val = 42, state = 0, velocity = 64\<rparr>),
           (12, \<lparr>note_val = 36, state = 0, velocity = 64\<rparr>),
           (12, \<lparr>note_val = 42, state = 1, velocity = 81\<rparr>),
           (24, \<lparr>note_val = 42, state = 0, velocity = 64\<rparr>),
           (24, \<lparr>note_val = 42, state = 1, velocity = 59\<rparr>),
           (24, \<lparr>note_val = 38, state = 1, velocity = 81\<rparr>),
           (24, \<lparr>note_val = 36, state = 1, velocity = 81\<rparr>),
           (36, \<lparr>note_val = 42, state = 0, velocity = 64\<rparr>),
           (36, \<lparr>note_val = 38, state = 0, velocity = 64\<rparr>),
           (36, \<lparr>note_val = 36, state = 0, velocity = 64\<rparr>),
           (36, \<lparr>note_val = 42, state = 1, velocity = 81\<rparr>),
           (48, \<lparr>note_val = 42, state = 0, velocity = 64\<rparr>)]\<rparr>,
        Some \<lparr>length_beats = 4,
         events =
          [(0, \<lparr>note_val = 42, state = 1, velocity = 81\<rparr>),
           (0, \<lparr>note_val = 36, state = 1, velocity = 81\<rparr>),
           (12, \<lparr>note_val = 42, state = 0, velocity = 64\<rparr>),
           (12, \<lparr>note_val = 36, state = 0, velocity = 64\<rparr>),
           (12, \<lparr>note_val = 42, state = 1, velocity = 81\<rparr>),
           (12, \<lparr>note_val = 36, state = 1, velocity = 81\<rparr>),
           (24, \<lparr>note_val = 42, state = 0, velocity = 64\<rparr>),
           (24, \<lparr>note_val = 36, state = 0, velocity = 64\<rparr>),
           (24, \<lparr>note_val = 42, state = 1, velocity = 81\<rparr>),
           (24, \<lparr>note_val = 38, state = 1, velocity = 81\<rparr>),
           (36, \<lparr>note_val = 42, state = 0, velocity = 64\<rparr>),
           (36, \<lparr>note_val = 38, state = 0, velocity = 64\<rparr>),
           (36, \<lparr>note_val = 42, state = 1, velocity = 81\<rparr>),
           (36, \<lparr>note_val = 38, state = 1, velocity = 81\<rparr>),
           (48, \<lparr>note_val = 42, state = 0, velocity = 64\<rparr>),
           (48, \<lparr>note_val = 38, state = 0, velocity = 64\<rparr>),
           (48, \<lparr>note_val = 42, state = 1, velocity = 81\<rparr>),
           (48, \<lparr>note_val = 36, state = 1, velocity = 81\<rparr>),
           (60, \<lparr>note_val = 42, state = 0, velocity = 64\<rparr>),
           (60, \<lparr>note_val = 36, state = 0, velocity = 64\<rparr>),
           (60, \<lparr>note_val = 42, state = 1, velocity = 81\<rparr>),
           (72, \<lparr>note_val = 42, state = 0, velocity = 64\<rparr>),
           (72, \<lparr>note_val = 42, state = 1, velocity = 81\<rparr>),
           (72, \<lparr>note_val = 38, state = 1, velocity = 81\<rparr>),
           (84, \<lparr>note_val = 42, state = 0, velocity = 64\<rparr>),
           (84, \<lparr>note_val = 38, state = 0, velocity = 64\<rparr>),
           (84, \<lparr>note_val = 42, state = 1, velocity = 81\<rparr>),
           (96, \<lparr>note_val = 42, state = 0, velocity = 64\<rparr>)]\<rparr>]\<rparr>"

definition emptyPage :: Page where
  "emptyPage = \<lparr>page_id = 0xFFFF, loops = replicate LOOPS_PER_PAGE None\<rparr>"

definition dummySamples :: SamplePack where
  "dummySamples =
     \<lparr>reserved0 = Some 0xFFFFFFFF, reserved1 = Some 0xFFFFFFFF,
      reserved2 = Some 0xFFFFFFFF, reserved3 = Some 0xFFFFFFFF,
      pages = (replicate 10 emptyPage)[2 := generateDummyPage2]\<rparr>"

definition single_loop_pack :: "nat \<Rightarrow> nat \<Rightarrow> LoopData \<Rightarrow> SamplePack" where
  "single_loop_pack p s l =
     \<lparr>reserved0 = Some 0xFFFFFFFF, reserved1 = Some 0xFFFFFFFF,
      reserved2 = Some 0xFFFFFFFF, reserved3 = Some 0xFFFFFFFF,
      pages = (replicate 10 emptyPage)
                [p := \<lparr>page_id = 0xDEAD, loops = (replicate LOOPS_PER_PAGE None)[s := Some l]\<rparr>]\<rparr>"

definition one_event_loop :: "int \<Rightarrow> int \<Rightarrow> int \<Rightarrow> int \<Rightarrow> LoopData" where
  "one_event_loop t n s v =
     \<lparr>length_beats = 4, events = [(t, \<lparr>note_val = n, state = s, velocity = v\<rparr>)]\<rparr>"

text \<open>
  \<open>full_pack\<close> has a loop of 255 events (1022 bytes) in each of its 150 slots, more
  than 16-bit offsets can address.
\<close>

definition full_loop :: LoopData where
  "full_loop =
     \<lparr>length_beats = 4,
      events = replicate 255 (0, \<lparr>note_val = 60, state = 1, velocity = 100\<rparr>)\<rparr>"

definition full_pack :: SamplePack where
  "full_pack =
     \<lparr>reserved0 = Some 0, reserved1 = Some 0, reserved2 = Some 0, reserved3 = Some 0,
      pages = replicate 10 \<lparr>page_id = 0, loops = replicate 15 (Some full_loop)\<rparr>\<rparr>"

section \<open>Bit-level facts about the JavaScript operators\<close>

lemma js_and_low_bits:
  assumes "n \<le> 31"
  shows "js_and v (2 ^ n - 1) = take_bit n v"
proof -
  have m: "ToInt32 (2 ^ n - 1) = mask n"
    unfolding ToInt32_def mask_eq_exp_minus_1 [symmetric]
    by (rule bit_eqI) (use assms in \<open>auto simp add: bit_simps\<close>)
  have "js_and v (2 ^ n - 1) = take_bit n (signed_take_bit 31 v)"
    by (simp add: js_and_def m take_bit_eq_mask) (simp add: ToInt32_def)
  also have "\<dots> = take_bit n v"
    by (rule bit_eqI) (use assms in \<open>auto simp add: bit_simps\<close>)
  finally show ?thesis .
qed

lemma js_and_0xFF: "js_and v 0xFF = take_bit 8 v"
  using js_and_low_bits [of 8 v] by simp

lemma js_and_0x7F: "js_and v 0x7F = take_bit 7 v"
  using js_and_low_bits [of 7 v] by simp

lemma js_and_0x01: "js_and v 0x01 = take_bit 1 v"
  using js_and_low_bits [of 1 v] by simp

lemma shift_counts:
  "nat (ToUint32 0 AND 31) = 0" "nat (ToUint32 7 AND 31) = 7" "nat (ToUint32 8 AND 31) = 8"
  "nat (ToUint32 16 AND 31) = 16" "nat (ToUint32 24 AND 31) = 24"
  by (simp_all add: ToUint32_def)

lemma byte_of_sar:
  assumes "k + 8 \<le> 32"
  shows "take_bit 8 (drop_bit k (signed_take_bit 31 v)) = take_bit 8 (drop_bit k (v::int))"
proof (rule bit_eqI)
  fix n
  have "n < 8 \<Longrightarrow> min 31 (k + n) = k + n" using assms by simp
  then show "bit (take_bit 8 (drop_bit k (signed_take_bit 31 v))) n = bit (take_bit 8 (drop_bit k v)) n"
    by (auto simp add: bit_simps)
qed

lemma ToUint32_ToInt32: "ToUint32 (ToInt32 x) = ToUint32 x"
  by (simp add: ToUint32_def ToInt32_def take_bit_signed_take_bit)

lemma ToUint32_js_or: "ToUint32 (js_or a b) = ToUint32 a OR ToUint32 b"
  by (simp add: js_or_def ToUint32_def ToInt32_def take_bit_signed_take_bit)

lemma ToUint32_push_bit: "ToUint32 (push_bit k (ToInt32 a)) = ToUint32 (push_bit k a)"
  unfolding ToUint32_def ToInt32_def
proof (rule bit_eqI)
  fix n :: nat
  have "n < 32 \<Longrightarrow> min 31 (n - k) = n - k" by simp
  then show "bit (take_bit 32 (push_bit k (signed_take_bit 31 a))) n = bit (take_bit 32 (push_bit k a)) n"
    by (auto simp add: bit_simps)
qed

lemma ToUint32_js_shl:
  "nat (ToUint32 b AND 31) = k \<Longrightarrow> ToUint32 (js_shl a b) = ToUint32 (push_bit k a)"
  by (simp add: js_shl_def ToUint32_ToInt32 ToUint32_push_bit)

lemma assemble32:
  "((take_bit 8 v OR take_bit 32 (push_bit 8 (take_bit 8 (drop_bit 8 v))))
     OR take_bit 32 (push_bit 16 (take_bit 8 (drop_bit 16 v))))
     OR take_bit 32 (push_bit 24 (take_bit 8 (drop_bit 24 v))) = take_bit 32 (v::int)" (is "?l = ?r")
proof (rule bit_eqI)
  fix n :: nat
  have s: "8 \<le> n \<Longrightarrow> 8 + (n - 8) = n" "16 \<le> n \<Longrightarrow> 16 + (n - 16) = n" "24 \<le> n \<Longrightarrow> 24 + (n - 24) = n"
    by simp_all
  show "bit ?l n = bit ?r n"
    using s by (cases "n < 8"; cases "n < 16"; cases "n < 24"; cases "n < 32") (auto simp add: bit_simps)
qed

lemma push32_bytes:
  "push32 v d = (if v < 0 \<or> v > 0xFFFFFFFF then Inl (RangeError (OutOfRange32 v))
      else Inr (d @ [take_bit 8 v, take_bit 8 (drop_bit 8 v), take_bit 8 (drop_bit 16 v), take_bit 8 (drop_bit 24 v)]))"
  by (simp add: push32_def js_and_0xFF js_sar_def shift_counts ToInt32_def byte_of_sar)

lemma pop32_bytes:
  assumes "0 \<le> v" "v < 2 ^ 32"
  shows "pop32 (take_bit 8 v # take_bit 8 (drop_bit 8 v) # take_bit 8 (drop_bit 16 v) # take_bit 8 (drop_bit 24 v) # d) = Inr (v, d)"
proof -
  have "js_shr (js_or (js_or (js_or (take_bit 8 v) (js_shl (take_bit 8 (drop_bit 8 v)) 8)) (js_shl (take_bit 8 (drop_bit 16 v)) 16)) (js_shl (take_bit 8 (drop_bit 24 v)) 24)) 0 = take_bit 32 v"
    by (simp add: js_shr_def shift_counts ToUint32_js_or ToUint32_js_shl)
       (simp add: ToUint32_def assemble32)
  also have "\<dots> = v" using assms by (simp add: take_bit_int_eq_self)
  finally show ?thesis by simp
qed


lemma ToInt32_bit: "bit (ToInt32 x) n \<longleftrightarrow> bit x (min 31 n)"
  by (simp add: ToInt32_def bit_signed_take_bit_iff)

lemma packed_bits:
  "bit (js_or (js_shl s 7) (js_and v 0x7F)) n \<longleftrightarrow>
     (if n < 7 then bit v n else bit s (min 31 n - 7))"
  unfolding js_and_0x7F js_or_def js_shl_def shift_counts
  by (auto simp add: bit_simps ToInt32_bit min_def)

lemma in_byte_range_iff:
  "0 \<le> k \<and> k \<le> (255::int) \<longleftrightarrow> (\<forall>n\<ge>8. \<not> bit k n)"
proof -
  have "0 \<le> k \<and> k \<le> 255 \<longleftrightarrow> take_bit 8 k = k"
    by (auto simp add: take_bit_int_eq_self_iff)
  also have "\<dots> \<longleftrightarrow> (\<forall>n. bit (take_bit 8 k) n = bit k n)"
    by (simp add: bit_eq_iff)
  also have "\<dots> \<longleftrightarrow> (\<forall>n\<ge>8. \<not> bit k n)"
  proof (rule iffI)
    assume a: "\<forall>n. bit (take_bit 8 k) n = bit k n"
    show "\<forall>n\<ge>8. \<not> bit k n"
    proof (intro allI impI)
      fix n :: nat
      assume n: "8 \<le> n"
      from a have "bit (take_bit 8 k) n = bit k n" by blast
      with n show "\<not> bit k n" by (simp add: bit_take_bit_iff)
    qed
  next
    assume a: "\<forall>n\<ge>8. \<not> bit k n"
    show "\<forall>n. bit (take_bit 8 k) n = bit k n"
    proof (rule allI)
      fix n :: nat
      show "bit (take_bit 8 k) n = bit k n"
      proof (cases "n < 8")
        case True
        then show ?thesis by (simp add: bit_take_bit_iff)
      next
        case False
        with a have "\<not> bit k n" by simp
        with False show ?thesis by (simp add: bit_take_bit_iff)
      qed
    qed
  qed
  finally show ?thesis .
qed

lemma packed_in_range_iff:
  "0 \<le> js_or (js_shl s 7) (js_and v 0x7F) \<and> js_or (js_shl s 7) (js_and v 0x7F) \<le> 255
     \<longleftrightarrow> (\<forall>m. 1 \<le> m \<and> m \<le> 24 \<longrightarrow> \<not> bit s m)"
proof -
  have "(\<forall>n\<ge>8. \<not> bit s (min 31 n - 7)) \<longleftrightarrow> (\<forall>m. 1 \<le> m \<and> m \<le> 24 \<longrightarrow> \<not> bit s m)"
  proof (intro iffI allI impI)
    fix m :: nat
    assume a: "\<forall>n\<ge>8. \<not> bit s (min 31 n - 7)" and m: "1 \<le> m \<and> m \<le> 24"
    from m have "8 \<le> m + 7" "min 31 (m + 7) - 7 = m" by simp_all
    with a [rule_format, of "m + 7"] show "\<not> bit s m" by simp
  next
    fix n :: nat
    assume a: "\<forall>m. 1 \<le> m \<and> m \<le> 24 \<longrightarrow> \<not> bit s m" and n: "8 \<le> n"
    from n have "1 \<le> min 31 n - 7 \<and> min 31 n - 7 \<le> 24" by (auto simp add: min_def)
    with a show "\<not> bit s (min 31 n - 7)" by blast
  qed
  then show ?thesis
    unfolding in_byte_range_iff by (simp add: packed_bits)
qed




lemma take_bit_1_cases: "take_bit 1 (s::int) = 0 \<or> take_bit 1 s = 1"
proof -
  have "take_bit 1 s = s mod 2" by (simp add: take_bit_eq_mod)
  moreover have "s mod 2 = 0 \<or> s mod 2 = 1" by presburger
  ultimately show ?thesis by (simp only:)
qed

lemma take_bit_25_1:
  "take_bit 25 (s::int) = take_bit 1 s \<Longrightarrow> take_bit 25 s = 0 \<or> take_bit 25 s = 1"
  using take_bit_1_cases [of s] by (elim disjE) (simp_all only:, simp_all)

lemma take_bit_1_25:
  assumes c: "take_bit 25 (s::int) = 0 \<or> take_bit 25 s = 1"
  shows "take_bit 25 s = take_bit 1 s"
proof -
  have t: "take_bit 1 s = take_bit 1 (take_bit 25 s)" by simp
  from c show "take_bit 25 s = take_bit 1 s"
  proof
    assume z: "take_bit 25 s = 0"
    note t
    also have "take_bit 1 (take_bit 25 s) = 0" by (simp only: z take_bit_of_0)
    finally show ?thesis using z by (simp only:)
  next
    assume z: "take_bit 25 s = 1"
    note t
    also have "take_bit 1 (take_bit 25 s) = 1" by (simp only: z) simp
    finally show ?thesis using z by (simp only:)
  qed
qed

lemma bits_1_24_iff:
  "(\<forall>m. 1 \<le> m \<and> m \<le> 24 \<longrightarrow> \<not> bit s m) \<longleftrightarrow> s mod 2 ^ 25 = 0 \<or> s mod 2 ^ 25 = (1::int)"
proof -
  have A: "(\<forall>m. 1 \<le> m \<and> m \<le> 24 \<longrightarrow> \<not> bit s m) \<longleftrightarrow> take_bit 25 s = take_bit 1 s"
  proof
    assume a: "\<forall>m. 1 \<le> m \<and> m \<le> 24 \<longrightarrow> \<not> bit s m"
    show "take_bit 25 s = take_bit 1 s"
    proof (rule bit_eqI)
      fix n :: nat
      from a have "1 \<le> n \<Longrightarrow> n < 25 \<Longrightarrow> \<not> bit s n" by simp
      then show "bit (take_bit 25 s) n = bit (take_bit 1 s) n"
        by (cases "n = 0") (auto simp add: bit_take_bit_iff bit_0)
    qed
  next
    assume e: "take_bit 25 s = take_bit 1 s"
    show "\<forall>m. 1 \<le> m \<and> m \<le> 24 \<longrightarrow> \<not> bit s m"
    proof (intro allI impI)
      fix m :: nat
      assume m: "1 \<le> m \<and> m \<le> 24"
      from e have "bit (take_bit 25 s) m = bit (take_bit 1 s) m" by simp
      with m show "\<not> bit s m" by (simp add: bit_take_bit_iff)
    qed
  qed
  have B: "take_bit 25 s = take_bit 1 s \<longleftrightarrow> take_bit 25 s = 0 \<or> take_bit 25 s = 1"
    using take_bit_25_1 [of s] take_bit_1_25 [of s] by blast
  show ?thesis unfolding A B by (simp add: take_bit_eq_mod)
qed




lemma packed_value:
  assumes "0 \<le> js_or (js_shl s 7) (js_and v 0x7F)" "js_or (js_shl s 7) (js_and v 0x7F) \<le> 255"
  shows "js_or (js_shl s 7) (js_and v 0x7F) = (s mod 2) * 128 + v mod 128"
proof -
  let ?d = "js_or (js_shl s 7) (js_and v 0x7F)"
  have "?d = take_bit 8 ?d" using assms by (simp add: take_bit_int_eq_self)
  also have "\<dots> = push_bit 7 (take_bit 1 s) OR take_bit 7 v"
    by (rule bit_eqI) (auto simp add: bit_simps packed_bits min_def bit_0)
  also have "\<dots> = push_bit 7 (take_bit 1 s) + take_bit 7 v"
    by (rule disjunctive_add [symmetric]) (auto simp add: bit_simps)
  finally show ?thesis by (simp add: push_bit_eq_mult take_bit_eq_mod)
qed

section \<open>The encoder, step by step\<close>

lemma bindE_simps [simp]:
  "bindE (Inl e) f = Inl e" "bindE (Inr x) f = f x"
  by (simp_all add: bindE_def)

lemma bindE_eq_Inr:
  "bindE m f = Inr y \<longleftrightarrow> (\<exists>x. m = Inr x \<and> f x = Inr y)"
  by (cases m) simp_all

lemma bindE_eq_Inl:
  "bindE m f = Inl e \<longleftrightarrow> m = Inl e \<or> (\<exists>x. m = Inr x \<and> f x = Inl e)"
  by (cases m) simp_all

lemma bindE_cong:
  "m = m' \<Longrightarrow> (\<And>x. m' = Inr x \<Longrightarrow> f x = f' x) \<Longrightarrow> bindE m f = bindE m' f'"
  by (cases m') simp_all

lemma push8_Inr: "push8 v d = Inr d' \<longleftrightarrow> 0 \<le> v \<and> v \<le> 255 \<and> d' = d @ [js_and v 0xFF]"
  by (auto simp add: push8_def)

lemma push16_Inr:
  "push16 v d = Inr d' \<longleftrightarrow>
     0 \<le> v \<and> v \<le> 65535 \<and> d' = d @ [js_and v 0xFF, js_and (js_sar v 8) 0xFF]"
  by (auto simp add: push16_def)

lemma push8_Inl: "push8 v d = Inl e \<longleftrightarrow> (v < 0 \<or> 255 < v) \<and> e = RangeError (OutOfRange8 v)"
  by (auto simp add: push8_def)

lemma push16_Inl: "push16 v d = Inl e \<longleftrightarrow> (v < 0 \<or> 65535 < v) \<and> e = RangeError (OutOfRange16 v)"
  by (auto simp add: push16_def)

lemma encode_event_length:
  "encode_event ev d = Inr d' \<Longrightarrow> length d' = length d + 4"
  by (cases ev) (auto simp add: bindE_eq_Inr push8_Inr push16_Inr)

lemma encode_event_ticks:
  "encode_event ev d = Inr d' \<Longrightarrow> ticks_ok ev"
  by (cases ev) (auto simp add: bindE_eq_Inr push8_Inr push16_Inr ticks_ok_def)

lemma encode_events_length:
  "encode_events evs d = Inr d' \<Longrightarrow> length d' = length d + 4 * length evs"
  by (induction evs arbitrary: d) (auto simp add: bindE_eq_Inr dest!: encode_event_length)

lemma encode_events_ticks:
  "encode_events evs d = Inr d' \<Longrightarrow> list_all ticks_ok evs"
  by (induction evs arbitrary: d) (auto simp add: bindE_eq_Inr dest: encode_event_ticks)

lemma encode_loop_length:
  "encode_loop l d = Inr d' \<Longrightarrow> length d' = length d + loop_size l"
  by (auto simp add: encode_loop_def loop_size_def bindE_eq_Inr push8_Inr dest!: encode_events_length)

lemma encode_loop_checks:
  "encode_loop l d = Inr d' \<Longrightarrow> length (events l) \<le> 255 \<and> list_all ticks_ok (events l)"
  by (auto simp add: encode_loop_def bindE_eq_Inr push8_Inr dest!: encode_events_ticks)

lemma encode_slots_length:
  "encode_slots sl (offs, dat) = Inr (offs', dat') \<Longrightarrow>
     length offs' = length offs + 2 * length sl \<and> length dat' = length dat + slots_size sl"
proof (induction sl "(offs, dat)" arbitrary: offs dat rule: encode_slots.induct)
  case 1
  then show ?case by simp
next
  case (2 rest loopOffsets loopData)
  then show ?case by (auto simp add: bindE_eq_Inr push16_Inr)
next
  case (3 loop rest loopOffsets loopData)
  then show ?case by (fastforce simp add: bindE_eq_Inr push16_Inr dest!: encode_loop_length)
qed


lemma encode_slots_append:
  "encode_slots (a @ b) st = bindE (encode_slots a st) (encode_slots b)"
proof (induction a st rule: encode_slots.induct)
  case (1 st)
  then show ?case by simp
next
  case (2 rest loopOffsets loopData)
  then show ?case by (cases "push16 0xFFFF loopOffsets") simp_all
next
  case (3 loop rest loopOffsets loopData)
  then show ?case
    by (cases "push16 (int (length loopData)) loopOffsets"; cases "encode_loop loop loopData")
       simp_all
qed

lemma encode_loops_slots:
  "encode_loops ls idxs st = encode_slots (map (slot_at ls) idxs) st"
proof (induction idxs arbitrary: st)
  case Nil
  then show ?case by simp
next
  case (Cons i idxs)
  obtain offs dat where st: "st = (offs, dat)" by (cases st)
  show ?case
    unfolding st
    by (cases "index ls i"; cases "the (index ls i)")
       (simp_all add: slot_at_def Cons.IH cong: bindE_cong)
qed


lemma map_nth_upt: "n \<le> length xs \<Longrightarrow> map ((!) xs) [0..<n] = take n xs"
  by (simp add: list_eq_iff_nth_eq)

lemma encode_pages_slots_gen:
  "\<forall>i\<in>set idxs. i < length ps \<Longrightarrow>
     encode_pages ps idxs st = encode_slots (concat (map (\<lambda>i. page_slots (ps ! i)) idxs)) st"
proof (induction idxs arbitrary: st)
  case Nil
  then show ?case by simp
next
  case (Cons i idxs)
  then show ?case
    by (simp add: index_def encode_loops_slots encode_slots_append page_slots_def cong: bindE_cong)
qed

lemma encode_pages_TypeError:
  "\<not> (\<forall>i\<in>set idxs. i < length ps) \<Longrightarrow> \<exists>e. encode_pages ps idxs st = Inl e"
proof (induction idxs arbitrary: st)
  case Nil
  then show ?case by simp
next
  case (Cons i idxs)
  show ?case
  proof (cases "i < length ps")
    case True
    with Cons.prems have "\<not> (\<forall>i\<in>set idxs. i < length ps)" by simp
    from Cons.IH [OF this] show ?thesis
      by (cases "encode_loops (loops (ps ! i)) [0..<LOOPS_PER_PAGE] st") (simp_all add: index_def True)
  next
    case False
    then show ?thesis by (simp add: index_def)
  qed
qed

lemma pack_slots_upt:
  "NUM_PAGES \<le> length (pages p) \<Longrightarrow>
     concat (map (\<lambda>i. page_slots (pages p ! i)) [0..<NUM_PAGES]) = pack_slots p"
  unfolding pack_slots_def
  by (simp add: map_nth_upt [symmetric] comp_def)

lemma encode_pages_slots:
  "NUM_PAGES \<le> length (pages p) \<Longrightarrow>
     encode_pages (pages p) [0..<NUM_PAGES] st = encode_slots (pack_slots p) st"
  by (simp add: encode_pages_slots_gen pack_slots_upt)

lemma encode_page_ids_Inr:
  "encode_page_ids ps idxs d = Inr d' \<Longrightarrow>
     length d' = length d + 2 * length idxs \<and> (\<forall>i\<in>set idxs. i < length ps)"
proof (induction idxs arbitrary: d)
  case Nil
  then show ?case by simp
next
  case (Cons i idxs)
  then show ?case
    by (fastforce simp add: index_def bindE_eq_Inr push16_Inr split: if_splits)
qed

lemma encode_page_ids_Inl:
  "encode_page_ids ps idxs d = Inl e \<Longrightarrow> \<forall>i\<in>set idxs. i < length ps \<Longrightarrow> \<exists>m. e = RangeError m"
proof (induction idxs arbitrary: d)
  case Nil
  then show ?case by simp
next
  case (Cons i idxs)
  then show ?case
    by (auto simp add: index_def bindE_eq_Inl push16_Inl)
qed

lemma encode_page_ids_ok:
  "\<forall>i\<in>set idxs. i < length ps \<and> 0 \<le> page_id (ps ! i) \<and> page_id (ps ! i) \<le> 0xFFFF \<Longrightarrow>
     \<exists>d'. encode_page_ids ps idxs d = Inr d'"
proof (induction idxs arbitrary: d)
  case Nil
  then show ?case by simp
next
  case (Cons i idxs)
  then show ?case
    by (simp add: index_def push16_def)
qed


lemma push32_Inr:
  "push32 v d = Inr d' \<longleftrightarrow>
     0 \<le> v \<and> v \<le> 4294967295 \<and>
     d' = d @ [js_and v 0xFF, js_and (js_sar v 8) 0xFF, js_and (js_sar v 16) 0xFF,
               js_and (js_sar v 24) 0xFF]"
  by (auto simp add: push32_def)

lemma push32_Inl:
  "push32 v d = Inl e \<longleftrightarrow> (v < 0 \<or> 4294967295 < v) \<and> e = RangeError (OutOfRange32 v)"
  by (auto simp add: push32_def)

lemma encode_event_Inl: "encode_event ev d = Inl e \<Longrightarrow> \<exists>m. e = RangeError m"
  by (cases ev) (auto simp add: bindE_eq_Inl push8_Inl push16_Inl)

lemma encode_events_Inl: "encode_events evs d = Inl e \<Longrightarrow> \<exists>m. e = RangeError m"
  by (induction evs arbitrary: d) (auto simp add: bindE_eq_Inl dest: encode_event_Inl)

lemma encode_loop_Inl: "encode_loop l d = Inl e \<Longrightarrow> \<exists>m. e = RangeError m"
  by (auto simp add: encode_loop_def bindE_eq_Inl push8_Inl dest: encode_events_Inl)

lemma encode_slots_Inl: "encode_slots sl st = Inl e \<Longrightarrow> \<exists>m. e = RangeError m"
proof (induction sl st rule: encode_slots.induct)
  case (1 st)
  then show ?case by simp
next
  case (2 rest loopOffsets loopData)
  then show ?case by (auto simp add: bindE_eq_Inl push16_Inl)
next
  case (3 loop rest loopOffsets loopData)
  then show ?case by (auto simp add: bindE_eq_Inl push16_Inl dest: encode_loop_Inl)
qed

lemma upt_NUM_PAGES: "(\<forall>i\<in>set [0..<NUM_PAGES]. i < length ps) \<longleftrightarrow> NUM_PAGES \<le> length ps"
  by (auto simp add: NUM_PAGES_def)

lemma samplesParser_encode_Inr:
  assumes "samplesParser_encode p = Inr b"
  shows "NUM_PAGES \<le> length (pages p) \<and>
         (\<exists>hd offs dat. length hd = 36 \<and>
            encode_slots (pack_slots p) ([], []) = Inr (offs, dat) \<and>
            b = Uint8Array_from (hd @ offs @ dat))"
proof -
  from assms obtain d0 d1 d2 d3 d4 offs dat where
    r: "push32 (number_or_undefined (reserved0 p)) [] = Inr d0"
       "push32 (number_or_undefined (reserved1 p)) d0 = Inr d1"
       "push32 (number_or_undefined (reserved2 p)) d1 = Inr d2"
       "push32 (number_or_undefined (reserved3 p)) d2 = Inr d3"
    and ids: "encode_page_ids (pages p) [0..<NUM_PAGES] d3 = Inr d4"
    and pg: "encode_pages (pages p) [0..<NUM_PAGES] ([], []) = Inr (offs, dat)"
    and b: "b = Uint8Array_from (add (add d4 offs) dat)"
    unfolding samplesParser_encode_def bindE_eq_Inr by (auto split: prod.splits)
  from r have "length d3 = 16" by (auto simp add: push32_Inr)
  from encode_page_ids_Inr [OF ids] have n: "NUM_PAGES \<le> length (pages p)"
    by (simp only: upt_NUM_PAGES)
  from encode_page_ids_Inr [OF ids] \<open>length d3 = 16\<close> have len: "length d4 = 36"
    by (simp add: NUM_PAGES_def)
  from pg n have "encode_slots (pack_slots p) ([], []) = Inr (offs, dat)"
    by (simp add: encode_pages_slots)
  with len n b show ?thesis by (auto simp add: add_def)
qed

lemma samplesParser_encode_Inl:
  assumes "samplesParser_encode p = Inl e" and "NUM_PAGES \<le> length (pages p)"
  shows "\<exists>m. e = RangeError m"
proof -
  have ids: "\<forall>i\<in>set [0..<NUM_PAGES]. i < length (pages p)"
    using assms(2) by (simp add: upt_NUM_PAGES)
  from assms(1) show ?thesis
    unfolding samplesParser_encode_def bindE_eq_Inl
    by (auto simp add: push32_Inl encode_pages_slots [OF assms(2)]
             dest: encode_page_ids_Inl [OF _ ids] encode_slots_Inl split: prod.splits)
qed

lemma samplesParser_encode_valid_header:
  assumes "valid_header p"
  shows "\<exists>hd. length hd = 36 \<and>
           samplesParser_encode p =
             bindE (encode_slots (pack_slots p) ([], []))
               (\<lambda>(offs, dat). Inr (Uint8Array_from (hd @ offs @ dat)))"
proof -
  from assms obtain r0 r1 r2 r3 where
    r: "reserved0 p = Some r0" "reserved1 p = Some r1" "reserved2 p = Some r2" "reserved3 p = Some r3"
       "0 \<le> r0" "r0 \<le> 4294967295" "0 \<le> r1" "r1 \<le> 4294967295"
       "0 \<le> r2" "r2 \<le> 4294967295" "0 \<le> r3" "r3 \<le> 4294967295"
    by (auto simp add: valid_header_def valid_u32_def split: option.splits)
  from assms have n: "length (pages p) = NUM_PAGES"
    and ids: "\<forall>i\<in>set [0..<NUM_PAGES]. i < length (pages p) \<and> 0 \<le> page_id (pages p ! i) \<and> page_id (pages p ! i) \<le> 0xFFFF"
    by (auto simp add: valid_header_def list_all_length)
  obtain d3 where d3: "bindE (push32 r0 []) (\<lambda>d. bindE (push32 r1 d) (\<lambda>d. bindE (push32 r2 d) (push32 r3))) = Inr d3"
    and "length d3 = 16"
    using r by (simp add: push32_def)
  from encode_page_ids_ok [OF ids] obtain d4 where d4: "encode_page_ids (pages p) [0..<NUM_PAGES] d3 = Inr d4"
    by blast
  with \<open>length d3 = 16\<close> have "length d4 = 36"
    by (auto dest!: encode_page_ids_Inr simp add: NUM_PAGES_def)
  moreover have "samplesParser_encode p =
             bindE (encode_slots (pack_slots p) ([], []))
               (\<lambda>(offs, dat). Inr (Uint8Array_from (d4 @ offs @ dat)))"
    using d3 d4 r n
    by (simp add: samplesParser_encode_def number_or_undefined_def push32_def encode_pages_slots add_def)
  ultimately show ?thesis by blast
qed

section \<open>Sizes\<close>

lemma slots_size_append: "slots_size (a @ b) = slots_size a + slots_size b"
  by (induction a rule: slots_size.induct) simp_all

lemma slots_size_replicate_None: "slots_size (replicate n None) = 0"
  by (induction n) simp_all

lemma slots_size_concat: "slots_size (concat xss) = sum_list (map slots_size xss)"
  by (induction xss) (simp_all add: slots_size_append)

lemma even_slots_size: "even (slots_size sl)"
  by (induction sl rule: slots_size.induct) (simp_all add: loop_size_def)

lemma fold_events_size: "fold (\<lambda>_ size. size + 4) evs (acc::nat) = acc + 4 * length evs"
  by (induction evs arbitrary: acc) simp_all

lemma fold_loops_size:
  "fold (\<lambda>loop size. case loop of None \<Rightarrow> size
           | Some l \<Rightarrow> fold (\<lambda>_ size. size + 4) (events l) (size + 1 + 1)) ls acc
     = acc + slots_size ls"
proof (induction ls arbitrary: acc)
  case Nil
  then show ?case by simp
next
  case (Cons s ls)
  then show ?case by (cases s) (simp_all add: fold_events_size loop_size_def)
qed

lemma getPageByteSize_slots: "getPageByteSize page = slots_size (loops page)"
  by (simp add: getPageByteSize_def fold_loops_size)

lemma fold_pages_size:
  "fold (\<lambda>page size. size + getPageByteSize page) ps acc = acc + sum_list (map getPageByteSize ps)"
  by (induction ps arbitrary: acc) simp_all

lemma getPackSize_sum: "getPackSize pack = sum_list (map getPageByteSize (pages pack))"
  by (simp add: getPackSize_def fold_pages_size)

lemma slot_at_simps:
  "i < length ls \<Longrightarrow> slot_at ls i = ls ! i"
  "length ls \<le> i \<Longrightarrow> slot_at ls i = None"
  by (simp_all add: slot_at_def index_def)

lemma map_slot_at_short:
  assumes "length ls \<le> n"
  shows "map (slot_at ls) [0..<n] = ls @ replicate (n - length ls) None"
  using assms by (auto simp add: list_eq_iff_nth_eq slot_at_simps nth_append)

lemma page_slots_short:
  "length (loops page) \<le> LOOPS_PER_PAGE \<Longrightarrow>
     page_slots page = loops page @ replicate (LOOPS_PER_PAGE - length (loops page)) None"
  by (simp add: page_slots_def map_slot_at_short)

lemma slots_size_page_slots:
  "length (loops page) \<le> LOOPS_PER_PAGE \<Longrightarrow> slots_size (page_slots page) = getPageByteSize page"
  by (simp add: page_slots_short slots_size_append slots_size_replicate_None getPageByteSize_slots)

lemma slots_size_pack_slots:
  assumes "length (pages pack) = NUM_PAGES"
    and "list_all (\<lambda>page. length (loops page) \<le> LOOPS_PER_PAGE) (pages pack)"
  shows "slots_size (pack_slots pack) = getPackSize pack"
proof -
  have e: "map (slots_size \<circ> page_slots) (pages pack) = map getPageByteSize (pages pack)"
    using assms(2) by (simp add: list_all_iff slots_size_page_slots)
  have "slots_size (pack_slots pack) = sum_list (map (slots_size \<circ> page_slots) (pages pack))"
    using assms(1) by (simp add: pack_slots_def slots_size_concat)
  also have "\<dots> = sum_list (map getPageByteSize (pages pack))"
    by (simp only: e)
  finally show ?thesis by (simp add: getPackSize_sum)
qed

lemma length_pack_slots:
  "NUM_PAGES \<le> length (pages pack) \<Longrightarrow> length (pack_slots pack) = NUM_PAGES * LOOPS_PER_PAGE"
  by (simp add: pack_slots_def page_slots_def length_concat comp_def sum_list_triv)

section \<open>When the encoder succeeds and how it fails\<close>

lemma push16_bytes:
  "push16 v d = (if v < 0 \<or> v > 0xFFFF then Inl (RangeError (OutOfRange16 v))
      else Inr (d @ [take_bit 8 v, take_bit 8 (drop_bit 8 v)]))"
  by (simp add: push16_def js_and_0xFF js_sar_def shift_counts ToInt32_def byte_of_sar)

lemma push8_bytes:
  "push8 v d = (if v < 0 \<or> v > 0xFF then Inl (RangeError (OutOfRange8 v))
      else Inr (d @ [take_bit 8 v]))"
  by (simp add: push8_def js_and_0xFF)

lemma take_bit_7_range: "0 \<le> take_bit 7 (v::int) \<and> take_bit 7 v \<le> 255"
proof -
  have "take_bit 7 v < 2 ^ 7" by (rule take_bit_int_less_exp)
  then show ?thesis by simp
qed

lemma encode_event_Inr_iff:
  "encode_event (t, e) d = Inr d' \<longleftrightarrow>
     (state e mod 2 ^ 25 = 0 \<or> state e mod 2 ^ 25 = 1) \<and> 0 \<le> t \<and> t \<le> 65535 \<and>
     d' = d @ [note_val e mod 128, (state e mod 2) * 128 + velocity e mod 128,
               t mod 256, t div 256 mod 256]"
proof -
  let ?p = "js_or (js_shl (state e) 7) (js_and (velocity e) 0x7F)"
  define fits where "fits \<longleftrightarrow> state e mod 2 ^ 25 = 0 \<or> state e mod 2 ^ 25 = 1"
  define nb where "nb = note_val e mod 128"
  define pb where "pb = (state e mod 2) * 128 + velocity e mod 128"
  have "0 \<le> take_bit 7 (note_val e) \<and> take_bit 7 (note_val e) \<le> 255"
    by (rule take_bit_7_range)
  then have "push8 (js_and (note_val e) 0x7F) d = Inr (d @ [take_bit 7 (note_val e)])"
    by (simp add: push8_bytes js_and_0x7F take_bit_int_eq_self)
  then have n: "push8 (js_and (note_val e) 0x7F) d = Inr (d @ [nb])"
    by (simp only: nb_def take_bit_eq_mod) simp
  have r: "0 \<le> ?p \<and> ?p \<le> 255 \<longleftrightarrow> fits"
    by (simp only: packed_in_range_iff bits_1_24_iff fits_def)
  have t: "push16 t (d @ [nb, pb]) =
      (if t < 0 \<or> t > 65535 then Inl (RangeError (OutOfRange16 t))
       else Inr (d @ [nb, pb, t mod 256, t div 256 mod 256]))"
    by (simp add: push16_bytes take_bit_eq_mod drop_bit_eq_div)
  have "encode_event (t, e) d = Inr d' \<longleftrightarrow>
     fits \<and> 0 \<le> t \<and> t \<le> 65535 \<and> d' = d @ [nb, pb, t mod 256, t div 256 mod 256]"
  proof (cases "0 \<le> ?p \<and> ?p \<le> 255")
    case True
    then have "0 \<le> ?p" and "?p \<le> 255" by simp_all
    from packed_value [OF this] have v: "?p = pb"
      by (simp only: pb_def)
    from True have "push8 ?p (d @ [nb]) = Inr (d @ [nb] @ [take_bit 8 ?p])"
      by (simp add: push8_bytes)
    moreover have "take_bit 8 ?p = ?p" using True by (simp add: take_bit_int_eq_self)
    ultimately have "push8 ?p (d @ [nb]) = Inr (d @ [nb, pb])"
      by (simp only: v) simp
    then have "encode_event (t, e) d = push16 t (d @ [nb, pb])"
      by (simp add: n)
    moreover from r True have fits by blast
    ultimately show ?thesis
      unfolding t by auto
  next
    case False
    then have "push8 ?p (d @ [nb]) = Inl (RangeError (OutOfRange8 ?p))"
      by (auto simp add: push8_def)
    then have "encode_event (t, e) d = Inl (RangeError (OutOfRange8 ?p))"
      by (simp add: n)
    moreover from r False have "\<not> fits" by blast
    ultimately show ?thesis by simp
  qed
  then show ?thesis by (simp only: fits_def nb_def pb_def)
qed

lemma encode_event_ok:
  assumes "state_ok ev" and "ticks_ok ev"
  shows "\<exists>d'. encode_event ev d = Inr d'"
proof -
  obtain t e where ev: "ev = (t, e)" by (cases ev)
  from assms(1) have "state e = 0 \<or> state e = 1"
    by (simp add: ev state_ok_def)
  then have "state e mod 2 ^ 25 = 0 \<or> state e mod 2 ^ 25 = 1"
    by (elim disjE) simp_all
  moreover from assms(2) have "0 \<le> t \<and> t \<le> 65535"
    by (simp add: ev ticks_ok_def)
  ultimately have "encode_event (t, e) d =
      Inr (d @ [note_val e mod 128, (state e mod 2) * 128 + velocity e mod 128,
                t mod 256, t div 256 mod 256])"
    by (simp only: encode_event_Inr_iff)
  then show ?thesis unfolding ev by blast
qed

lemma encode_events_ok:
  "list_all state_ok evs \<Longrightarrow> list_all ticks_ok evs \<Longrightarrow> \<exists>d'. encode_events evs d = Inr d'"
proof (induction evs arbitrary: d)
  case Nil
  then show ?case by simp
next
  case (Cons ev evs)
  then obtain d1 where "encode_event ev d = Inr d1"
    using encode_event_ok [of ev d] by auto
  with Cons show ?case by simp
qed

lemma encode_loop_ok:
  assumes "other_fields_ok l" and "counts_and_ticks_ok l"
  shows "\<exists>d'. encode_loop l d = Inr d'"
proof -
  from assms have b: "0 \<le> length_beats l" "length_beats l \<le> 255"
    and c: "length (events l) \<le> 255"
    and e: "list_all state_ok (events l)" "list_all ticks_ok (events l)"
    by (simp_all add: other_fields_ok_def counts_and_ticks_ok_def beats_ok_def)
  from b obtain d1 where d1: "push8 (length_beats l) d = Inr d1"
    by (simp add: push8_def)
  from c obtain d2 where d2: "push8 (int (length (events l))) d1 = Inr d2"
    by (simp add: push8_def)
  from encode_events_ok [OF e] obtain d3 where "encode_events (events l) d2 = Inr d3"
    by blast
  with d1 d2 show ?thesis by (simp add: encode_loop_def)
qed

lemma encode_loop_Inr_checks:
  "encode_loop l d = Inr d' \<Longrightarrow> counts_and_ticks_ok l"
  by (simp add: counts_and_ticks_ok_def encode_loop_checks)

lemma encodable_slot_simps:
  "encodable_slot None"
  "encodable_slot (Some l) \<longleftrightarrow> other_fields_ok l \<and> counts_and_ticks_ok l"
  by (simp_all add: encodable_slot_def)

lemma encode_slots_fit_ok:
  "list_all encodable_slot sl \<Longrightarrow> offsets_fit (length dat) sl \<Longrightarrow>
     \<exists>st'. encode_slots sl (offs, dat) = Inr st'"
proof (induction sl arbitrary: offs dat)
  case Nil
  then show ?case by simp
next
  case (Cons s sl)
  show ?case
  proof (cases s)
    case None
    with Cons.prems have "list_all encodable_slot sl" "offsets_fit (length dat) sl"
      by simp_all
    from Cons.IH [OF this] show ?thesis
      by (simp add: None push16_def)
  next
    case (Some l)
    with Cons.prems have r: "list_all encodable_slot sl"
      and l: "other_fields_ok l" "counts_and_ticks_ok l"
      and f: "length dat \<le> 0xFFFF" "offsets_fit (length dat + loop_size l) sl"
      by (simp_all add: encodable_slot_simps)
    from encode_loop_ok [OF l] obtain dat1 where d1: "encode_loop l dat = Inr dat1"
      by blast
    then have "length dat1 = length dat + loop_size l"
      by (rule encode_loop_length)
    with f have "offsets_fit (length dat1) sl" by simp
    from Cons.IH [OF r this] f(1) d1 show ?thesis
      by (simp add: Some push16_def)
  qed
qed

lemma encode_slots_not_fit:
  "list_all encodable_slot sl \<Longrightarrow> \<not> offsets_fit (length dat) sl \<Longrightarrow>
     \<exists>pre l post. sl = pre @ Some l # post \<and> 0xFFFF < length dat + slots_size pre \<and>
       encode_slots sl (offs, dat) =
         Inl (RangeError (OutOfRange16 (int (length dat + slots_size pre))))"
proof (induction sl arbitrary: offs dat)
  case Nil
  then show ?case by simp
next
  case (Cons s sl)
  show ?case
  proof (cases s)
    case None
    with Cons.prems have "list_all encodable_slot sl" "\<not> offsets_fit (length dat) sl"
      by simp_all
    from Cons.IH [OF this, of "offs @ [js_and 0xFFFF 0xFF, js_and (js_sar 0xFFFF 8) 0xFF]"]
    obtain pre l post where
      "sl = pre @ Some l # post" "0xFFFF < length dat + slots_size pre"
      "encode_slots sl (offs @ [js_and 0xFFFF 0xFF, js_and (js_sar 0xFFFF 8) 0xFF], dat) =
         Inl (RangeError (OutOfRange16 (int (length dat + slots_size pre))))"
      by blast
    then have "s # sl = (None # pre) @ Some l # post \<and>
        0xFFFF < length dat + slots_size (None # pre) \<and>
        encode_slots (s # sl) (offs, dat) =
          Inl (RangeError (OutOfRange16 (int (length dat + slots_size (None # pre)))))"
      by (simp add: None push16_def)
    then show ?thesis by blast
  next
    case (Some l)
    with Cons.prems have r: "list_all encodable_slot sl"
      and l: "other_fields_ok l" "counts_and_ticks_ok l"
      by (simp_all add: encodable_slot_simps)
    show ?thesis
    proof (cases "length dat \<le> 0xFFFF")
      case True
      from encode_loop_ok [OF l] obtain dat1 where d1: "encode_loop l dat = Inr dat1"
        by blast
      then have len: "length dat1 = length dat + loop_size l"
        by (rule encode_loop_length)
      from True obtain o1 where p: "push16 (int (length dat)) offs = Inr o1"
        by (simp add: push16_def)
      from Cons.prems True have "\<not> offsets_fit (length dat1) sl"
        by (simp add: Some len)
      from Cons.IH [OF r this, of o1] obtain pre l' post where
        "sl = pre @ Some l' # post" "0xFFFF < length dat1 + slots_size pre"
        "encode_slots sl (o1, dat1) =
           Inl (RangeError (OutOfRange16 (int (length dat1 + slots_size pre))))"
        by blast
      then have "s # sl = (Some l # pre) @ Some l' # post \<and>
          0xFFFF < length dat + slots_size (Some l # pre) \<and>
          encode_slots (s # sl) (offs, dat) =
            Inl (RangeError (OutOfRange16 (int (length dat + slots_size (Some l # pre)))))"
        by (simp add: Some p d1 len add.assoc)
      then show ?thesis by blast
    next
      case False
      then have "s # sl = [] @ Some l # sl \<and>
          0xFFFF < length dat + slots_size [] \<and>
          encode_slots (s # sl) (offs, dat) =
            Inl (RangeError (OutOfRange16 (int (length dat + slots_size []))))"
        by (simp add: Some push16_def)
      then show ?thesis by blast
    qed
  qed
qed

lemma offsets_fit_total: "n + slots_size sl \<le> 0xFFFF \<Longrightarrow> offsets_fit n sl"
  by (induction n sl rule: offsets_fit.induct) simp_all

lemma list_all_map_slot_at:
  "list_all P ls \<Longrightarrow> P None \<Longrightarrow> list_all P (map (slot_at ls) idxs)"
  by (auto simp add: list_all_iff slot_at_def index_def)

lemma list_all_pack_slots:
  assumes "list_all (\<lambda>page. list_all P (loops page)) (pages pack)" and "P None"
  shows "list_all P (pack_slots pack)"
proof -
  have "\<And>page. page \<in> set (take NUM_PAGES (pages pack)) \<Longrightarrow> list_all P (page_slots page)"
    using assms by (auto simp add: page_slots_def list_all_iff intro!: dest!: in_set_takeD)
       (auto simp add: slot_at_def index_def)
  then show ?thesis
    by (auto simp add: pack_slots_def list_all_iff)
qed

section \<open>Valid packs\<close>

lemma valid_slot_encodable: "valid_slot s \<Longrightarrow> encodable_slot s"
  by (cases s)
     (auto simp add: valid_slot_def encodable_slot_simps valid_loop_def other_fields_ok_def
        counts_and_ticks_ok_def valid_event_def list_all_iff)

lemma valid_pack_slots:
  assumes "valid_pack pack"
  shows "list_all encodable_slot (pack_slots pack)"
    and "slots_size (pack_slots pack) = getPackSize pack"
    and "length (pack_slots pack) = 150"
proof -
  from assms have n: "length (pages pack) = NUM_PAGES"
    and pg: "list_all valid_page (pages pack)"
    by (simp_all add: valid_pack_def valid_header_def)
  from pg have "list_all (\<lambda>page. list_all encodable_slot (loops page)) (pages pack)"
    by (auto simp add: list_all_iff valid_page_def valid_slot_encodable)
  then show "list_all encodable_slot (pack_slots pack)"
    by (rule list_all_pack_slots) (rule encodable_slot_simps)
  from pg have "list_all (\<lambda>page. length (loops page) \<le> LOOPS_PER_PAGE) (pages pack)"
    by (auto simp add: list_all_iff valid_page_def)
  with n show "slots_size (pack_slots pack) = getPackSize pack"
    by (rule slots_size_pack_slots)
  from n show "length (pack_slots pack) = 150"
    by (simp add: length_pack_slots NUM_PAGES_def LOOPS_PER_PAGE_def)
qed


lemma pages_dummySamples:
  "pages dummySamples =
     [emptyPage, emptyPage, generateDummyPage2, emptyPage, emptyPage,
      emptyPage, emptyPage, emptyPage, emptyPage, emptyPage]"
  by (simp add: dummySamples_def numeral_eq_Suc)

lemma getPackSize_dummySamples: "getPackSize dummySamples = 172"
  by (simp add: getPackSize_sum getPageByteSize_slots pages_dummySamples emptyPage_def
        generateDummyPage2_def slots_size_replicate_None loop_size_def)


lemma valid_emptyPage: "valid_page emptyPage"
  by (simp add: valid_page_def emptyPage_def valid_slot_def list_all_iff)

lemma valid_generateDummyPage2: "valid_page generateDummyPage2"
  by (simp add: valid_page_def generateDummyPage2_def valid_slot_def valid_loop_def
        valid_event_def beats_ok_def ticks_ok_def state_ok_def LOOPS_PER_PAGE_def)

lemma valid_dummySamples: "valid_pack dummySamples"
proof -
  have "valid_header dummySamples"
    by (simp add: valid_header_def pages_dummySamples)
       (simp add: dummySamples_def valid_u32_def NUM_PAGES_def emptyPage_def generateDummyPage2_def)
  then show ?thesis
    by (simp add: valid_pack_def getPackSize_dummySamples pages_dummySamples valid_emptyPage valid_generateDummyPage2)
qed

lemma valid_pack_encodes:
  assumes "valid_pack pack"
  shows "\<exists>bytes. samplesParser_encode pack = Inr bytes \<and>
           length bytes = 336 + getPackSize pack"
proof -
  note s = valid_pack_slots [OF assms]
  from assms have h: "valid_header pack" and c: "getPackSize pack < 0xFFFF"
    by (simp_all add: valid_pack_def)
  from c s(2) have "offsets_fit (length ([]::int list)) (pack_slots pack)"
    by (simp add: offsets_fit_total)
  from encode_slots_fit_ok [OF s(1) this] obtain offs dat where
    e: "encode_slots (pack_slots pack) ([], []) = Inr (offs, dat)"
    by fastforce
  from encode_slots_length [OF e] s have len: "length offs = 300" "length dat = getPackSize pack"
    by simp_all
  from samplesParser_encode_valid_header [OF h] obtain hd where
    "length hd = 36" "samplesParser_encode pack = Inr (Uint8Array_from (hd @ offs @ dat))"
    by (auto simp add: e)
  with len show ?thesis
    by (simp add: Uint8Array_from_def)
qed

lemma slots_size_sum_list:
  "slots_size ls =
     (\<Sum>slot\<leftarrow>ls. case slot of None \<Rightarrow> 0 | Some l \<Rightarrow> 2 + 4 * length (events l))"
  by (induction ls rule: slots_size.induct) (simp_all add: loop_size_def)

section \<open>The range checks of the encoder\<close>

lemma encode_slots_Inr_checks:
  "encode_slots sl st = Inr st' \<Longrightarrow> Some l \<in> set sl \<Longrightarrow> counts_and_ticks_ok l"
proof (induction sl st rule: encode_slots.induct)
  case (1 st)
  then show ?case by simp
next
  case (2 rest loopOffsets loopData)
  then show ?case by (auto simp add: bindE_eq_Inr)
next
  case (3 loop rest loopOffsets loopData)
  then show ?case by (auto simp add: bindE_eq_Inr dest: encode_loop_Inr_checks)
qed

lemma encode_checks_fire:
  assumes "NUM_PAGES \<le> length (pages pack)"
    and "Some l \<in> set (pack_slots pack)" and "\<not> counts_and_ticks_ok l"
  shows "\<exists>m. samplesParser_encode pack = Inl (RangeError m)"
proof (cases "samplesParser_encode pack")
  case (Inl e)
  with samplesParser_encode_Inl [OF Inl assms(1)] show ?thesis by blast
next
  case (Inr b)
  from samplesParser_encode_Inr [OF Inr] obtain offs dat where
    "encode_slots (pack_slots pack) ([], []) = Inr (offs, dat)" by blast
  from encode_slots_Inr_checks [OF this assms(2)] assms(3) show ?thesis by simp
qed

lemma encode_checks_silent:
  assumes "valid_header pack"
    and "list_all encodable_slot (pack_slots pack)"
  shows "(\<exists>bytes. samplesParser_encode pack = Inr bytes) \<or>
         (\<exists>pre l post. pack_slots pack = pre @ Some l # post \<and> 0xFFFF < slots_size pre \<and>
            samplesParser_encode pack = Inl (RangeError (OutOfRange16 (int (slots_size pre)))))"
proof -
  from samplesParser_encode_valid_header [OF assms(1)] obtain hd where
    e: "samplesParser_encode pack =
          bindE (encode_slots (pack_slots pack) ([], []))
            (\<lambda>(offs, dat). Inr (Uint8Array_from (hd @ offs @ dat)))"
    by blast
  show ?thesis
  proof (cases "offsets_fit (length ([]::int list)) (pack_slots pack)")
    case True
    from encode_slots_fit_ok [OF assms(2) True] obtain st' where
      "encode_slots (pack_slots pack) ([], []) = Inr st'" by blast
    then show ?thesis by (cases st') (simp add: e)
  next
    case False
    from encode_slots_not_fit [OF assms(2) False, of "[]"] obtain pre l post where
      "pack_slots pack = pre @ Some l # post" "0xFFFF < slots_size pre"
      "encode_slots (pack_slots pack) ([], []) =
         Inl (RangeError (OutOfRange16 (int (slots_size pre))))"
      by auto
    then show ?thesis unfolding e by (intro disjI2) (simp, blast)
  qed
qed


section \<open>Facts about the concrete packs\<close>

lemma page_slots_emptyPage: "page_slots emptyPage = replicate 15 None"
  by (simp add: page_slots_short emptyPage_def LOOPS_PER_PAGE_def)

lemma page_slots_single:
  "page_slots \<lparr>page_id = i, loops = (replicate LOOPS_PER_PAGE None)[s := Some l]\<rparr>
     = (replicate 15 None)[s := Some l]"
  by (simp add: page_slots_short) (simp add: LOOPS_PER_PAGE_def)

lemma pack_slots_single:
  "pack_slots (single_loop_pack p s l) =
     concat ((replicate 10 (replicate 15 None))[p := (replicate 15 None)[s := Some l]])"
  by (simp add: pack_slots_def single_loop_pack_def NUM_PAGES_def map_update
        page_slots_emptyPage page_slots_single)

lemma set_pack_slots_single: "set (pack_slots (single_loop_pack p s l)) \<subseteq> {None, Some l}"
proof -
  have "set ((replicate 15 None)[s := Some l]) \<subseteq> {None, Some l}"
    using set_update_subset_insert [of "replicate 15 None" s "Some l"] by auto
  moreover have "set ((replicate 10 (replicate 15 None))[p := (replicate 15 None)[s := Some l]])
      \<subseteq> {replicate 15 None, (replicate 15 None)[s := Some l]}"
    using set_update_subset_insert
      [of "replicate 10 (replicate 15 None)" p "(replicate 15 None)[s := Some l]"] by auto
  ultimately show ?thesis
    unfolding pack_slots_single by auto
qed

lemma Some_in_pack_slots_single:
  assumes "p < 10" and "s < 15"
  shows "Some l \<in> set (pack_slots (single_loop_pack p s l))"
proof -
  from assms(2) have "Some l \<in> set ((replicate 15 None)[s := Some l])"
    by (simp add: set_update_memI)
  moreover from assms(1) have "(replicate 15 None)[s := Some l]
      \<in> set ((replicate 10 (replicate 15 None))[p := (replicate 15 None)[s := Some l]])"
    by (simp add: set_update_memI)
  ultimately show ?thesis
    unfolding pack_slots_single by auto
qed

lemma valid_header_single: "valid_header (single_loop_pack p s l)"
proof -
  have "set ((replicate 10 emptyPage)[p := \<lparr>page_id = 0xDEAD, loops = (replicate LOOPS_PER_PAGE None)[s := Some l]\<rparr>])
      \<subseteq> {emptyPage, \<lparr>page_id = 0xDEAD, loops = (replicate LOOPS_PER_PAGE None)[s := Some l]\<rparr>}"
    using set_update_subset_insert [of "replicate 10 emptyPage" p] by auto
  then have "list_all (\<lambda>page. 0 \<le> page_id page \<and> page_id page \<le> 0xFFFF) (pages (single_loop_pack p s l))"
    by (auto simp add: list_all_iff single_loop_pack_def emptyPage_def)
  then show ?thesis
    by (simp add: valid_header_def) (simp add: single_loop_pack_def valid_u32_def NUM_PAGES_def)
qed


section \<open>The offset table\<close>

lemma assemble16:
  "ToInt32 (take_bit 8 v) OR ToInt32 (ToInt32 (push_bit 8 (ToInt32 (take_bit 8 (drop_bit 8 v)))))
     = take_bit 16 (v::int)" (is "?l = ?r")
proof (rule bit_eqI)
  fix n :: nat
  have s: "8 \<le> n \<Longrightarrow> 8 + (n - 8) = n" by simp
  show "bit ?l n = bit ?r n"
    using s by (cases "n < 8"; cases "n < 16"; cases "n < 31")
      (auto simp add: bit_simps ToInt32_bit min_def)
qed

lemma pop16_bytes:
  assumes "0 \<le> v" and "v \<le> 0xFFFF"
  shows "pop16 (take_bit 8 v # take_bit 8 (drop_bit 8 v) # d) = Inr (v, d)"
proof -
  have "js_or (take_bit 8 v) (js_shl (take_bit 8 (drop_bit 8 v)) 8) = take_bit 16 v"
    by (simp add: js_or_def js_shl_def shift_counts assemble16)
  also have "\<dots> = v" using assms by (simp add: take_bit_int_eq_self)
  finally show ?thesis by simp
qed

lemma byte_take_bit: "0 \<le> take_bit 8 (v::int) \<and> take_bit 8 v < 256"
proof -
  have "take_bit 8 v < 2 ^ 8" by (rule take_bit_int_less_exp)
  then show ?thesis by simp
qed

lemma encode_slots_table:
  "encode_slots sl (offs, dat) = Inr (offs', dat') \<Longrightarrow> even (length dat) \<Longrightarrow>
     \<exists>t. offs' = offs @ t \<and> list_all is_byte t \<and>
         (\<forall>rest. decode_loopExists (length sl) (t @ rest) = Inr (map (\<lambda>s. s \<noteq> None) sl, rest))"
proof (induction sl arbitrary: offs dat)
  case Nil
  then show ?case by simp
next
  case (Cons s sl)
  show ?case
  proof (cases s)
    case None
    have p: "push16 0xFFFF offs = Inr (offs @ [255, 255])"
      by (simp add: push16_bytes)
    with Cons.prems(1) have "encode_slots sl (offs @ [255, 255], dat) = Inr (offs', dat')"
      by (simp add: None)
    from Cons.IH [OF this Cons.prems(2)] obtain t where
      t: "offs' = (offs @ [255, 255]) @ t" "list_all is_byte t"
         "\<forall>rest. decode_loopExists (length sl) (t @ rest) = Inr (map (\<lambda>s. s \<noteq> None) sl, rest)"
      by blast
    have "pop16 (255 # 255 # t @ rest) = Inr (0xFFFF, t @ rest)" for rest
      using pop16_bytes [of "0xFFFF" "t @ rest"] by simp
    with t have "offs' = offs @ ([255, 255] @ t) \<and> list_all is_byte ([255, 255] @ t) \<and>
        (\<forall>rest. decode_loopExists (length (s # sl)) (([255, 255] @ t) @ rest)
           = Inr (map (\<lambda>s. s \<noteq> None) (s # sl), rest))"
      by (simp add: None is_byte_def)
    then show ?thesis by blast
  next
    case (Some l)
    from Cons.prems(1) obtain o1 dat1 where
      p: "push16 (int (length dat)) offs = Inr o1"
      and e: "encode_loop l dat = Inr dat1"
      and r: "encode_slots sl (o1, dat1) = Inr (offs', dat')"
      by (auto simp add: Some bindE_eq_Inr)
    let ?v = "int (length dat)"
    from p have v: "0 \<le> ?v" "?v \<le> 0xFFFF"
      and o1: "o1 = offs @ [take_bit 8 ?v, take_bit 8 (drop_bit 8 ?v)]"
      by (simp_all add: push16_bytes split: if_splits)
    from Cons.prems(2) have "?v \<noteq> 0xFFFF"
    proof -
      have "odd (0xFFFF::nat)" by simp
      with Cons.prems(2) have "length dat \<noteq> 0xFFFF" by metis
      then show ?thesis by simp
    qed
    from encode_loop_length [OF e] Cons.prems(2) have "even (length dat1)"
      by (simp add: loop_size_def)
    from Cons.IH [OF r this] obtain t where
      t: "offs' = o1 @ t" "list_all is_byte t"
         "\<forall>rest. decode_loopExists (length sl) (t @ rest) = Inr (map (\<lambda>s. s \<noteq> None) sl, rest)"
      by blast
    let ?e = "[take_bit 8 ?v, take_bit 8 (drop_bit 8 ?v)]"
    have "pop16 (take_bit 8 ?v # take_bit 8 (drop_bit 8 ?v) # t @ rest) = Inr (?v, t @ rest)" for rest
      using v by (rule pop16_bytes)
    with t \<open>?v \<noteq> 0xFFFF\<close> have "offs' = offs @ (?e @ t) \<and> list_all is_byte (?e @ t) \<and>
        (\<forall>rest. decode_loopExists (length (s # sl)) ((?e @ t) @ rest)
           = Inr (map (\<lambda>s. s \<noteq> None) (s # sl), rest))"
      using byte_take_bit [of ?v] byte_take_bit [of "drop_bit 8 ?v"]
      by (simp add: Some o1 is_byte_def)
    then show ?thesis by blast
  qed
qed

lemma ByteArray_from_Uint8Array_from:
  "ByteArray_from (Uint8Array_from d) = map (take_bit 8) d"
  by (simp add: ByteArray_from_def Uint8Array_from_def uint_word_of_int_eq comp_def)

lemma map_take_bit_bytes: "list_all is_byte t \<Longrightarrow> map (take_bit 8) t = t"
  by (induction t) (simp_all add: is_byte_def take_bit_int_eq_self)

lemma encode_offset_table:
  assumes "samplesParser_encode pack = Inr bytes"
  shows "decode_loopExists (NUM_PAGES * LOOPS_PER_PAGE) (drop 36 (ByteArray_from bytes))
           = Inr (map (\<lambda>s. s \<noteq> None) (pack_slots pack), drop 336 (ByteArray_from bytes))"
proof -
  from samplesParser_encode_Inr [OF assms] obtain hd offs dat where
    n: "NUM_PAGES \<le> length (pages pack)" and hd: "length hd = 36"
    and e: "encode_slots (pack_slots pack) ([], []) = Inr (offs, dat)"
    and b: "bytes = Uint8Array_from (hd @ offs @ dat)"
    by blast
  from encode_slots_table [OF e] obtain t where
    t: "offs = t" "list_all is_byte t"
       "\<forall>rest. decode_loopExists (length (pack_slots pack)) (t @ rest)
          = Inr (map (\<lambda>s. s \<noteq> None) (pack_slots pack), rest)"
    by auto
  from encode_slots_length [OF e] n have len: "length offs = 300"
    by (simp add: length_pack_slots NUM_PAGES_def LOOPS_PER_PAGE_def)
  have "drop 36 (ByteArray_from bytes) = offs @ map (take_bit 8) dat"
    using hd t(1,2) by (simp add: b ByteArray_from_Uint8Array_from map_take_bit_bytes)
  moreover have "drop 336 (ByteArray_from bytes) = map (take_bit 8) dat"
    using hd len by (simp add: b ByteArray_from_Uint8Array_from)
  ultimately show ?thesis
    using t n by (simp add: length_pack_slots)
qed

lemma encode_slots_offset_overflow:
  assumes "encode_slots pre ([], []) = Inr (offs, dat)" and "0xFFFF \<le> length dat"
  shows "encode_slots (pre @ Some l # post) ([], []) =
           Inl (RangeError (OutOfRange16 (int (length dat))))"
proof -
  from encode_slots_length [OF assms(1)] have "even (length dat)"
    by (simp add: even_slots_size)
  moreover have "odd (0xFFFF::nat)" by simp
  ultimately have "length dat \<noteq> 0xFFFF" by metis
  with assms(2) have "0xFFFF < int (length dat)" by simp
  then have "push16 (int (length dat)) offs = Inl (RangeError (OutOfRange16 (int (length dat))))"
    by (simp add: push16_def)
  then show ?thesis
    by (simp add: encode_slots_append assms(1))
qed

section \<open>More facts about the concrete packs\<close>

lemma slots_size_replicate_Some: "slots_size (replicate k (Some l)) = k * loop_size l"
  by (induction k) simp_all

lemma offsets_fit_replicate_Some:
  "offsets_fit n (replicate (Suc k) (Some l)) \<longleftrightarrow> n + k * loop_size l \<le> 0xFFFF"
proof (induction k arbitrary: n)
  case 0
  then show ?case by simp
next
  case (Suc k)
  have "offsets_fit n (replicate (Suc (Suc k)) (Some l)) \<longleftrightarrow>
      n \<le> 0xFFFF \<and> offsets_fit (n + loop_size l) (replicate (Suc k) (Some l))"
    by simp
  also have "\<dots> \<longleftrightarrow> n \<le> 0xFFFF \<and> n + loop_size l + k * loop_size l \<le> 0xFFFF"
    by (simp only: Suc.IH)
  also have "\<dots> \<longleftrightarrow> n + Suc k * loop_size l \<le> 0xFFFF"
    by auto
  finally show ?case .
qed

lemma loop_size_full_loop: "loop_size full_loop = 1022"
  by (simp add: loop_size_def full_loop_def)

lemma encodable_full_loop: "encodable_slot (Some full_loop)"
  by (simp add: encodable_slot_simps other_fields_ok_def counts_and_ticks_ok_def beats_ok_def
        full_loop_def list_all_iff state_ok_def ticks_ok_def)

lemma concat_replicate_replicate:
  "concat (replicate m (replicate n x)) = replicate (m * n) x"
  by (induction m) (simp_all add: replicate_add)

lemma pack_slots_full_pack: "pack_slots full_pack = replicate 150 (Some full_loop)"
proof -
  have "page_slots \<lparr>page_id = 0, loops = replicate 15 (Some full_loop)\<rparr>
      = replicate 15 (Some full_loop)"
    by (simp add: page_slots_short LOOPS_PER_PAGE_def)
  then have "pack_slots full_pack = concat (replicate 10 (replicate 15 (Some full_loop)))"
    by (simp add: pack_slots_def full_pack_def NUM_PAGES_def)
  also have "\<dots> = replicate 150 (Some full_loop)"
    by (simp add: concat_replicate_replicate)
  finally show ?thesis .
qed

lemma valid_header_full_pack: "valid_header full_pack"
  by (simp add: valid_header_def full_pack_def valid_u32_def NUM_PAGES_def list_all_iff)


lemma pack_slots_dummySamples:
  "pack_slots dummySamples =
     replicate 30 None @ loops generateDummyPage2 @ replicate 118 None"
proof -
  have "length (loops generateDummyPage2) = 2"
    by (simp add: generateDummyPage2_def)
  then have "page_slots generateDummyPage2 = loops generateDummyPage2 @ replicate 13 None"
    by (simp add: page_slots_short LOOPS_PER_PAGE_def)
  then show ?thesis
    by (simp add: pack_slots_def pages_dummySamples NUM_PAGES_def page_slots_emptyPage
          replicate_add [symmetric])
qed


section \<open>Slots past the end of a \<open>loops\<close> array\<close>

lemma slot_at_append_None: "slot_at (ls @ replicate k None) i = slot_at ls i"
  by (simp add: slot_at_def index_def nth_append)

lemma page_slots_pad:
  "page_slots (page\<lparr>loops := loops page @ replicate k None\<rparr>) = page_slots page"
  by (simp add: page_slots_def slot_at_append_None)

lemma encode_pages_cong:
  assumes "length ps' = length ps"
    and "\<And>i. i < length ps \<Longrightarrow> page_slots (ps' ! i) = page_slots (ps ! i)"
  shows "encode_pages ps' idxs st = encode_pages ps idxs st"
proof (induction idxs arbitrary: st)
  case Nil
  then show ?case by simp
next
  case (Cons i idxs)
  show ?case
  proof (cases "i < length ps")
    case True
    with assms have "encode_loops (loops (ps' ! i)) [0..<LOOPS_PER_PAGE] st
        = encode_loops (loops (ps ! i)) [0..<LOOPS_PER_PAGE] st"
      by (simp add: encode_loops_slots page_slots_def [symmetric])
    with True assms(1) show ?thesis
      by (simp add: index_def Cons.IH cong: bindE_cong)
  next
    case False
    with assms(1) show ?thesis by (simp add: index_def)
  qed
qed

lemma encode_page_ids_cong:
  assumes "length ps' = length ps"
    and "\<And>i. i < length ps \<Longrightarrow> page_id (ps' ! i) = page_id (ps ! i)"
  shows "encode_page_ids ps' idxs d = encode_page_ids ps idxs d"
proof (induction idxs arbitrary: d)
  case Nil
  then show ?case by simp
next
  case (Cons i idxs)
  with assms show ?case
    by (cases "i < length ps") (simp_all add: index_def cong: bindE_cong)
qed

lemma encode_pad_page:
  "samplesParser_encode
     (pack\<lparr>pages := (pages pack)[i := (pages pack ! i)\<lparr>loops := loops (pages pack ! i) @ replicate k None\<rparr>]\<rparr>)
   = samplesParser_encode pack"
proof -
  let ?ps = "pages pack"
  let ?ps' = "?ps[i := (?ps ! i)\<lparr>loops := loops (?ps ! i) @ replicate k None\<rparr>]"
  have s: "page_slots (?ps' ! j) = page_slots (?ps ! j)" if "j < length ?ps" for j
    using that by (cases "j = i") (simp_all add: page_slots_pad)
  have d: "page_id (?ps' ! j) = page_id (?ps ! j)" if "j < length ?ps" for j
    using that by (cases "j = i") simp_all
  have "encode_pages ?ps' idxs st = encode_pages ?ps idxs st" for idxs st
    by (rule encode_pages_cong) (simp_all add: s)
  moreover have "encode_page_ids ?ps' idxs d = encode_page_ids ?ps idxs d" for idxs d
    by (rule encode_page_ids_cong) (simp_all add: d)
  ultimately show ?thesis
    by (simp add: samplesParser_encode_def)
qed

lemma encode_loops_undefined:
  "length ls \<le> loop_idx \<Longrightarrow>
     encode_loops ls (loop_idx # rest) (loopOffsets, loopData)
       = encode_loops ls rest (loopOffsets @ [255, 255], loopData)"
  by (simp add: index_def push16_bytes)

lemma encode_loops_null:
  "loop_idx < length ls \<Longrightarrow> ls ! loop_idx = None \<Longrightarrow>
     encode_loops ls (loop_idx # rest) (loopOffsets, loopData)
       = encode_loops ls rest (loopOffsets @ [255, 255], loopData)"
  by (simp add: index_def push16_bytes)


section \<open>How the decoder reads the header and the offset table\<close>

lemma js_or_shl_bytes:
  assumes "is_byte a" and "is_byte b"
  shows "js_or a (js_shl b 8) = a + 256 * b"
proof -
  let ?v = "a + 256 * b"
  from assms have a: "take_bit 8 ?v = a"
    by (simp add: is_byte_def take_bit_eq_mod)
  from assms have b: "take_bit 8 (drop_bit 8 ?v) = b"
    by (simp add: is_byte_def take_bit_eq_mod drop_bit_eq_div)
  from assms have r: "0 \<le> ?v" "?v < 2 ^ 16"
    by (simp_all add: is_byte_def)
  have "js_or (take_bit 8 ?v) (js_shl (take_bit 8 (drop_bit 8 ?v)) 8) = take_bit 16 ?v"
    by (simp add: js_or_def js_shl_def shift_counts assemble16)
  also have "\<dots> = ?v" using r by (simp add: take_bit_int_eq_self)
  finally show ?thesis by (simp only: a b)
qed

lemma sentinel_iff:
  assumes "is_byte a" and "is_byte b"
  shows "js_or a (js_shl b 8) = 0xFFFF \<longleftrightarrow> a = 255 \<and> b = 255"
  using assms unfolding js_or_shl_bytes [OF assms] by (auto simp add: is_byte_def)

lemma is_byte_uint: "is_byte (uint (w :: 8 word))"
  using uint_lt2p [of w] by (simp add: is_byte_def)


lemma length_ge_2: "2 \<le> length d \<Longrightarrow> \<exists>a b d'. d = a # b # d'"
  by (cases d; cases "tl d") auto

lemma length_ge_4: "4 \<le> length d \<Longrightarrow> \<exists>a b c e d'. d = a # b # c # e # d'"
proof -
  assume l: "4 \<le> length d"
  then obtain a b d1 where d: "d = a # b # d1"
    using length_ge_2 [of d] by auto
  with l obtain c e d' where "d1 = c # e # d'"
    using length_ge_2 [of d1] by auto
  with d show ?thesis by blast
qed

lemma pop32_frame:
  assumes "4 \<le> length d"
  shows "\<exists>v. \<forall>rest. pop32 (d @ rest) = Inr (v, drop 4 d @ rest)"
proof -
  from length_ge_4 [OF assms] obtain a b c e d' where "d = a # b # c # e # d'"
    by blast
  then show ?thesis by simp
qed

lemma pop16_frame:
  assumes "2 \<le> length d"
  shows "\<exists>v. \<forall>rest. pop16 (d @ rest) = Inr (v, drop 2 d @ rest)"
proof -
  from length_ge_2 [OF assms] obtain a b d' where "d = a # b # d'"
    by blast
  then show ?thesis by simp
qed

lemma decode_page_ids_frame:
  "2 * n \<le> length d \<Longrightarrow>
     \<exists>ps. length ps = n \<and> (\<forall>rest. decode_page_ids n (d @ rest) = Inr (ps, drop (2 * n) d @ rest))"
proof (induction n arbitrary: d)
  case 0
  then show ?case by simp
next
  case (Suc n)
  then have "2 \<le> length d" by simp
  from pop16_frame [OF this] obtain v where
    v: "\<forall>rest. pop16 (d @ rest) = Inr (v, drop 2 d @ rest)" by blast
  from Suc.prems have "2 * n \<le> length (drop 2 d)" by simp
  from Suc.IH [OF this] obtain ps where
    ps: "length ps = n"
        "\<forall>rest. decode_page_ids n (drop 2 d @ rest) = Inr (ps, drop (2 * n) (drop 2 d) @ rest)"
    by blast
  have "drop (2 * n) (drop 2 d) = drop (2 * Suc n) d"
    by (simp add: add.commute)
  with v ps have "length (\<lparr>page_id = v, loops = []\<rparr> # ps) = Suc n \<and>
      (\<forall>rest. decode_page_ids (Suc n) (d @ rest)
         = Inr (\<lparr>page_id = v, loops = []\<rparr> # ps, drop (2 * Suc n) d @ rest))"
    by simp
  then show ?case by blast
qed

lemma decode_loopExists_flags:
  assumes "length t1 = 2 * n" and "length t2 = 2 * n"
    and "list_all is_byte t1" and "list_all is_byte t2"
    and "\<forall>k<n. (t1 ! (2 * k) = 255 \<and> t1 ! (2 * k + 1) = 255)
               \<longleftrightarrow> (t2 ! (2 * k) = 255 \<and> t2 ! (2 * k + 1) = 255)"
  shows "\<exists>ex. decode_loopExists n (t1 @ rest) = Inr (ex, rest) \<and>
              decode_loopExists n (t2 @ rest) = Inr (ex, rest)"
  using assms
proof (induction n arbitrary: t1 t2)
  case 0
  then show ?case by simp
next
  case (Suc n)
  from Suc.prems(1) obtain a1 b1 u1 where t1: "t1 = a1 # b1 # u1"
    using length_ge_2 [of t1] by auto
  from Suc.prems(2) obtain a2 b2 u2 where t2: "t2 = a2 # b2 # u2"
    using length_ge_2 [of t2] by auto
  from Suc.prems(1,2) have l: "length u1 = 2 * n" "length u2 = 2 * n"
    by (simp_all add: t1 t2)
  from Suc.prems(3,4) have bb: "is_byte a1" "is_byte b1" "is_byte a2" "is_byte b2"
    and bu: "list_all is_byte u1" "list_all is_byte u2"
    by (simp_all add: t1 t2)
  have h: "(a1 = 255 \<and> b1 = 255) \<longleftrightarrow> (a2 = 255 \<and> b2 = 255)"
    using Suc.prems(5) [rule_format, of 0] by (simp add: t1 t2)
  have "\<forall>k<n. (u1 ! (2 * k) = 255 \<and> u1 ! (2 * k + 1) = 255)
               \<longleftrightarrow> (u2 ! (2 * k) = 255 \<and> u2 ! (2 * k + 1) = 255)"
  proof (intro allI impI)
    fix k assume "k < n"
    then have "Suc k < Suc n" by simp
    from Suc.prems(5) [rule_format, OF this]
    show "(u1 ! (2 * k) = 255 \<and> u1 ! (2 * k + 1) = 255)
               \<longleftrightarrow> (u2 ! (2 * k) = 255 \<and> u2 ! (2 * k + 1) = 255)"
      by (simp add: t1 t2)
  qed
  from Suc.IH [OF l bu this] obtain ex where
    ex: "decode_loopExists n (u1 @ rest) = Inr (ex, rest)"
        "decode_loopExists n (u2 @ rest) = Inr (ex, rest)"
    by blast
  have "(js_or a1 (js_shl b1 8) = 0xFFFF) = (js_or a2 (js_shl b2 8) = 0xFFFF)"
    using h by (simp only: sentinel_iff [OF bb(1,2)] sentinel_iff [OF bb(3,4)])
  with ex show ?case
    by (simp add: t1 t2)
qed

section \<open>Packs with a single loop\<close>

lemma slots_size_le:
  "set sl \<subseteq> {None, Some l} \<Longrightarrow> slots_size sl \<le> length sl * loop_size l"
  by (induction sl rule: slots_size.induct) auto

lemma valid_pack_single:
  assumes "valid_loop l" and "150 * loop_size l < 0xFFFF"
  shows "valid_pack (single_loop_pack p s l)"
proof -
  let ?pg = "\<lparr>page_id = 0xDEAD, loops = (replicate LOOPS_PER_PAGE None)[s := Some l]\<rparr>"
  let ?P = "single_loop_pack p s l"
  have "set ((replicate LOOPS_PER_PAGE None)[s := Some l]) \<subseteq> {None, Some l}"
    using set_update_subset_insert [of "replicate LOOPS_PER_PAGE None" s "Some l"] by auto
  with assms(1) have "list_all valid_slot ((replicate LOOPS_PER_PAGE None)[s := Some l])"
    by (auto simp add: list_all_iff valid_slot_def)
  then have pg: "valid_page ?pg"
    by (simp add: valid_page_def)
  have "set (pages ?P) \<subseteq> {emptyPage, ?pg}"
    using set_update_subset_insert [of "replicate 10 emptyPage" p ?pg]
    by (auto simp add: single_loop_pack_def)
  with pg valid_emptyPage have v: "list_all valid_page (pages ?P)"
    by (auto simp add: list_all_iff)
  then have "list_all (\<lambda>page. length (loops page) \<le> LOOPS_PER_PAGE) (pages ?P)"
    by (auto simp add: list_all_iff valid_page_def)
  moreover have n: "length (pages ?P) = NUM_PAGES"
    by (simp add: single_loop_pack_def NUM_PAGES_def)
  ultimately have "getPackSize ?P = slots_size (pack_slots ?P)"
    by (simp add: slots_size_pack_slots)
  also have "\<dots> \<le> length (pack_slots ?P) * loop_size l"
    using set_pack_slots_single by (rule slots_size_le)
  also have "\<dots> = 150 * loop_size l"
    using n by (simp add: length_pack_slots NUM_PAGES_def LOOPS_PER_PAGE_def)
  finally have "getPackSize ?P < 0xFFFF" using assms(2) by simp
  with v valid_header_single show ?thesis
    by (simp add: valid_pack_def)
qed

lemma valid_one_event_loop:
  "valid_loop (one_event_loop 12 60 1 100)" "150 * loop_size (one_event_loop 12 60 1 100) < 0xFFFF"
  by (simp_all add: valid_loop_def one_event_loop_def beats_ok_def valid_event_def ticks_ok_def
        state_ok_def loop_size_def)

lemma slots_single_15:
  "s < 15 \<Longrightarrow> list_all (\<lambda>page. length (loops page) = 15) (pages (single_loop_pack p s l))"
proof -
  have "set (pages (single_loop_pack p s l)) \<subseteq>
      {emptyPage, \<lparr>page_id = 0xDEAD, loops = (replicate LOOPS_PER_PAGE None)[s := Some l]\<rparr>}"
    using set_update_subset_insert [of "replicate 10 emptyPage" p]
    by (auto simp add: single_loop_pack_def)
  then show ?thesis
    by (auto simp add: list_all_iff emptyPage_def LOOPS_PER_PAGE_def)
qed


section \<open>One loop, encoded and decoded\<close>

lemma ToInt32_small: "0 \<le> k \<Longrightarrow> k < 2 ^ 31 \<Longrightarrow> ToInt32 k = k"
  by (simp add: ToInt32_def signed_take_bit_int_eq_self)

lemma decode_state_bit:
  assumes "s = 0 \<or> s = 1" and "0 \<le> w" and "w < 128"
  shows "js_and (js_sar (s * 128 + w) 7) 0x01 = s"
    and "js_and (s * 128 + w) 0x7F = w"
proof -
  from assms have r: "0 \<le> s * 128 + w" "s * 128 + w < 2 ^ 31" by auto
  from assms have "(s * 128 + w) div 128 = s" by auto
  then have "js_sar (s * 128 + w) 7 = s"
    by (simp add: js_sar_def shift_counts ToInt32_small [OF r] drop_bit_eq_div)
  with assms(1) show "js_and (js_sar (s * 128 + w) 7) 0x01 = s"
    by (auto simp add: js_and_0x01)
  from assms show "js_and (s * 128 + w) 0x7F = w"
    by (auto simp add: js_and_0x7F take_bit_eq_mod)
qed

lemma pop16_div_mod:
  assumes "0 \<le> t" and "t \<le> 65535"
  shows "pop16 (t mod 256 # t div 256 mod 256 # d) = Inr (t, d)"
  using pop16_bytes [of t d] assms by (simp add: take_bit_eq_mod drop_bit_eq_div)

lemma decode_events_step:
  assumes "state e = 0 \<or> state e = 1" and "0 \<le> t" and "t \<le> 65535"
  shows "decode_events (Suc n)
           ([note_val e mod 128, (state e mod 2) * 128 + velocity e mod 128,
             t mod 256, t div 256 mod 256] @ X)
         = bindE (decode_events n X) (\<lambda>(rest, d). Inr (mask_event (t, e) # rest, d))"
proof -
  have m: "state e mod 2 = state e" using assms(1) by auto
  have w: "0 \<le> velocity e mod 128" "velocity e mod 128 < 128" by simp_all
  have n: "js_and (note_val e mod 128) 0x7F = note_val e mod 128"
    by (simp add: js_and_0x7F take_bit_eq_mod)
  have v: "js_or (t mod 256) (js_shl (t div 256 mod 256) 8) = t"
    using pop16_div_mod [OF assms(2,3), of "[]"] by simp
  show ?thesis
    by (simp add: m n v decode_state_bit [OF assms(1) w] mask_event_def)
qed

lemma events_roundtrip:
  assumes "list_all state_ok evs" and "list_all ticks_ok evs"
  shows "\<exists>bs. length bs = 4 * length evs \<and>
           (\<forall>d. encode_events evs d = Inr (d @ bs)) \<and>
           (\<forall>rest. decode_events (length evs) (bs @ rest) = Inr (map mask_event evs, rest))"
  using assms
proof (induction evs)
  case Nil
  then show ?case by simp
next
  case (Cons ev evs)
  obtain t e where ev: "ev = (t, e)" by (cases ev)
  from Cons.prems have s: "state e = 0 \<or> state e = 1" and t: "0 \<le> t" "t \<le> 65535"
    by (simp_all add: ev state_ok_def ticks_ok_def)
  from Cons obtain bs where bs: "length bs = 4 * length evs"
    "\<forall>d. encode_events evs d = Inr (d @ bs)"
    "\<forall>rest. decode_events (length evs) (bs @ rest) = Inr (map mask_event evs, rest)"
    by auto
  let ?b = "[note_val e mod 128, (state e mod 2) * 128 + velocity e mod 128,
             t mod 256, t div 256 mod 256]"
  from s have "state e mod 2 ^ 25 = 0 \<or> state e mod 2 ^ 25 = 1"
    by (elim disjE) simp_all
  with t have enc: "encode_event (t, e) d = Inr (d @ ?b)" for d
    by (simp only: encode_event_Inr_iff)
  have "length (?b @ bs) = 4 * length (ev # evs)"
    using bs(1) by simp
  moreover have "\<forall>d. encode_events (ev # evs) d = Inr (d @ ?b @ bs)"
    using enc bs(2) by (simp add: ev)
  moreover have "\<forall>rest. decode_events (length (ev # evs)) ((?b @ bs) @ rest)
      = Inr (map mask_event (ev # evs), rest)"
    using decode_events_step [OF s t, of "length evs"] bs(3) by (simp add: ev)
  ultimately show ?case by blast
qed

lemma loop_roundtrip_aux:
  assumes "other_fields_ok l" and "counts_and_ticks_ok l"
  shows "\<exists>bs. length bs = loop_size l \<and>
           (\<forall>d. encode_loop l d = Inr (d @ bs)) \<and>
           (\<forall>rest. decode_loop (bs @ rest)
              = Inr (\<lparr>length_beats = length_beats l, events = map mask_event (events l)\<rparr>, rest))"
proof -
  from assms have b: "0 \<le> length_beats l" "length_beats l \<le> 255"
    and c: "length (events l) \<le> 255"
    and e: "list_all state_ok (events l)" "list_all ticks_ok (events l)"
    by (simp_all add: other_fields_ok_def counts_and_ticks_ok_def beats_ok_def)
  from events_roundtrip [OF e] obtain bs where bs: "length bs = 4 * length (events l)"
    "\<forall>d. encode_events (events l) d = Inr (d @ bs)"
    "\<forall>rest. decode_events (length (events l)) (bs @ rest) = Inr (map mask_event (events l), rest)"
    by blast
  let ?h = "[length_beats l, int (length (events l))]"
  from b have "push8 (length_beats l) d = Inr (d @ [length_beats l])" for d
    by (simp add: push8_bytes take_bit_int_eq_self)
  moreover from c have "push8 (int (length (events l))) d = Inr (d @ [int (length (events l))])" for d
    by (simp add: push8_bytes take_bit_int_eq_self)
  ultimately have "\<forall>d. encode_loop l d = Inr (d @ ?h @ bs)"
    using bs(2) by (simp add: encode_loop_def)
  moreover have "length (?h @ bs) = loop_size l"
    using bs(1) by (simp add: loop_size_def)
  moreover have "\<forall>rest. decode_loop ((?h @ bs) @ rest)
      = Inr (\<lparr>length_beats = length_beats l, events = map mask_event (events l)\<rparr>, rest)"
    using bs(3) by (simp add: decode_loop_def)
  ultimately show ?thesis by blast
qed

lemma mask_event_valid: "valid_event ev \<Longrightarrow> mask_event ev = ev"
  by (cases ev) (simp add: valid_event_def mask_event_def)

section \<open>What the decoder returns\<close>

lemma pop8_Inr: "pop8 d = Inr (v, d') \<Longrightarrow> length d = Suc (length d')"
  by (cases d) auto

lemma pop16_Inr: "pop16 d = Inr (v, d') \<Longrightarrow> length d = 2 + length d'"
  by (cases d rule: pop16.cases) auto

lemma pop32_Inr: "pop32 d = Inr (v, d') \<Longrightarrow> length d = 4 + length d'"
  by (cases d rule: pop32.cases) auto

lemma pop8_Inl: "pop8 d = Inl e \<Longrightarrow> \<exists>m. e = RangeError m"
  by (cases d) auto

lemma pop16_Inl: "pop16 d = Inl e \<Longrightarrow> \<exists>m. e = RangeError m"
  by (cases d rule: pop16.cases) auto

lemma pop32_Inl: "pop32 d = Inl e \<Longrightarrow> \<exists>m. e = RangeError m"
  by (cases d rule: pop32.cases) auto

lemma decode_page_ids_Inr:
  "decode_page_ids n d = Inr (ps, d') \<Longrightarrow>
     length ps = n \<and> length d = 2 * n + length d' \<and> list_all (\<lambda>page. loops page = []) ps"
proof (induction n arbitrary: d ps)
  case 0
  then show ?case by simp
next
  case (Suc n)
  then show ?case
    by (fastforce simp add: bindE_eq_Inr dest!: pop16_Inr)
qed

lemma decode_page_ids_Inl: "decode_page_ids n d = Inl e \<Longrightarrow> \<exists>m. e = RangeError m"
proof (induction n arbitrary: d)
  case 0
  then show ?case by simp
next
  case (Suc n)
  then show ?case
    by (auto simp add: bindE_eq_Inl dest: pop16_Inl)
qed

lemma decode_loopExists_Inr:
  "decode_loopExists n d = Inr (ex, d') \<Longrightarrow> length ex = n \<and> length d = 2 * n + length d'"
proof (induction n arbitrary: d ex)
  case 0
  then show ?case by simp
next
  case (Suc n)
  then show ?case
    by (fastforce simp add: bindE_eq_Inr dest!: pop16_Inr)
qed

lemma decode_loopExists_Inl: "decode_loopExists n d = Inl e \<Longrightarrow> \<exists>m. e = RangeError m"
proof (induction n arbitrary: d)
  case 0
  then show ?case by simp
next
  case (Suc n)
  then show ?case
    by (auto simp add: bindE_eq_Inl dest: pop16_Inl)
qed

lemma decode_events_Inl: "decode_events n d = Inl e \<Longrightarrow> \<exists>m. e = RangeError m"
proof (induction n arbitrary: d)
  case 0
  then show ?case by simp
next
  case (Suc n)
  then show ?case
    by (auto simp add: bindE_eq_Inl dest: pop8_Inl pop16_Inl)
qed

lemma decode_loop_Inl: "decode_loop d = Inl e \<Longrightarrow> \<exists>m. e = RangeError m"
  by (auto simp add: decode_loop_def bindE_eq_Inl dest: pop8_Inl decode_events_Inl)

lemma decode_loops_Inr:
  "decode_loops ex p idxs d = Inr (ls, d') \<Longrightarrow> length ls = length idxs"
proof (induction idxs arbitrary: d ls)
  case Nil
  then show ?case by simp
next
  case (Cons i idxs)
  then show ?case
    by (fastforce simp add: bindE_eq_Inr split: if_splits)
qed

lemma decode_loops_Inl: "decode_loops ex p idxs d = Inl e \<Longrightarrow> \<exists>m. e = RangeError m"
proof (induction idxs arbitrary: d)
  case Nil
  then show ?case by simp
next
  case (Cons i idxs)
  then show ?case
    by (auto simp add: bindE_eq_Inl split: if_splits dest: decode_loop_Inl)
qed

lemma decode_pages_Inr:
  "decode_pages ex ps idxs d = Inr (ps', d') \<Longrightarrow> distinct idxs \<Longrightarrow>
     length ps' = length ps \<and>
     (\<forall>i<length ps. page_id (ps' ! i) = page_id (ps ! i) \<and>
        length (loops (ps' ! i)) =
          length (loops (ps ! i)) + (if i \<in> set idxs then LOOPS_PER_PAGE else 0))"
proof (induction idxs arbitrary: ps d)
  case Nil
  then show ?case by simp
next
  case (Cons j idxs)
  from Cons.prems(1) obtain ls d1 where j: "j < length ps"
    and l: "decode_loops ex j [0..<LOOPS_PER_PAGE] d = Inr (ls, d1)"
    and r: "decode_pages ex (ps[j := (ps ! j)\<lparr>loops := loops (ps ! j) @ ls\<rparr>]) idxs d1 = Inr (ps', d')"
    by (auto simp add: index_def bindE_eq_Inr split: if_splits)
  from decode_loops_Inr [OF l] have n: "length ls = LOOPS_PER_PAGE" by simp
  from Cons.prems(2) have d: "distinct idxs" "j \<notin> set idxs" by simp_all
  note IH = Cons.IH [OF r d(1)]
  show ?case
  proof (intro conjI allI impI)
    from IH show "length ps' = length ps" by simp
  next
    fix i assume i: "i < length ps"
    with IH have a: "page_id (ps' ! i) = page_id (ps[j := (ps ! j)\<lparr>loops := loops (ps ! j) @ ls\<rparr>] ! i)"
      and b: "length (loops (ps' ! i)) =
          length (loops (ps[j := (ps ! j)\<lparr>loops := loops (ps ! j) @ ls\<rparr>] ! i))
            + (if i \<in> set idxs then LOOPS_PER_PAGE else 0)"
      by simp_all
    from a i show "page_id (ps' ! i) = page_id (ps ! i)"
      by (cases "i = j") simp_all
    from b i d(2) n show "length (loops (ps' ! i)) =
          length (loops (ps ! i)) + (if i \<in> set (j # idxs) then LOOPS_PER_PAGE else 0)"
      by (cases "i = j") auto
  qed
qed

lemma decode_pages_Inl:
  "decode_pages ex ps idxs d = Inl e \<Longrightarrow> \<forall>i\<in>set idxs. i < length ps \<Longrightarrow> \<exists>m. e = RangeError m"
proof (induction idxs arbitrary: ps d)
  case Nil
  then show ?case by simp
next
  case (Cons j idxs)
  from Cons.prems(2) have j: "j < length ps" and r: "\<forall>i\<in>set idxs. i < length ps"
    by simp_all
  from Cons.prems(1) j consider
    "decode_loops ex j [0..<LOOPS_PER_PAGE] d = Inl e"
    | ls d1 where "decode_pages ex (ps[j := (ps ! j)\<lparr>loops := loops (ps ! j) @ ls\<rparr>]) idxs d1 = Inl e"
    by (auto simp add: index_def bindE_eq_Inl)
  then show ?case
  proof cases
    case 1
    then show ?thesis by (rule decode_loops_Inl)
  next
    case 2
    from Cons.IH [OF 2] r show ?thesis by simp
  qed
qed

lemma samplesParser_decode_Inr:
  assumes "samplesParser_decode bytes = Inr pack"
  shows "336 \<le> length bytes \<and> length (pages pack) = NUM_PAGES \<and>
         list_all (\<lambda>page. length (loops page) = LOOPS_PER_PAGE) (pages pack)"
proof -
  from assms obtain r0 d0 r1 d1 r2 d2 r3 d3 ps d4 ex d5 ps' d6 where
    p: "pop32 (ByteArray_from bytes) = Inr (r0, d0)" "pop32 d0 = Inr (r1, d1)"
       "pop32 d1 = Inr (r2, d2)" "pop32 d2 = Inr (r3, d3)"
    and i: "decode_page_ids NUM_PAGES d3 = Inr (ps, d4)"
    and f: "decode_loopExists (NUM_PAGES * LOOPS_PER_PAGE) d4 = Inr (ex, d5)"
    and g: "decode_pages ex ps [0..<NUM_PAGES] d5 = Inr (ps', d6)"
    and pk: "pages pack = ps'"
    by (auto simp add: samplesParser_decode_def bindE_eq_Inr split: prod.splits)
  from p have "length bytes = 16 + length d3"
    by (auto dest!: pop32_Inr simp add: ByteArray_from_def)
  moreover from decode_page_ids_Inr [OF i] have ps: "length ps = NUM_PAGES"
    "length d3 = 2 * NUM_PAGES + length d4" "list_all (\<lambda>page. loops page = []) ps"
    by simp_all
  moreover from decode_loopExists_Inr [OF f]
  have "length d4 = 2 * (NUM_PAGES * LOOPS_PER_PAGE) + length d5" by simp
  ultimately have len: "336 \<le> length bytes"
    by (simp add: NUM_PAGES_def LOOPS_PER_PAGE_def)
  from decode_pages_Inr [OF g] have s: "length ps' = length ps"
    "\<forall>i<length ps. length (loops (ps' ! i)) =
          length (loops (ps ! i)) + (if i \<in> set [0..<NUM_PAGES] then LOOPS_PER_PAGE else 0)"
    by simp_all
  have "length (loops (ps' ! i)) = LOOPS_PER_PAGE" if "i < length ps'" for i
  proof -
    from that s(1) ps(1) have i: "i < length ps" "i \<in> set [0..<NUM_PAGES]" by simp_all
    with ps(3) have "loops (ps ! i) = []" by (simp add: list_all_length)
    with s(2) i show ?thesis by simp
  qed
  then have "list_all (\<lambda>page. length (loops page) = LOOPS_PER_PAGE) ps'"
    by (simp add: list_all_length)
  with len s(1) ps(1) pk show ?thesis by simp
qed

lemma samplesParser_decode_Inl:
  assumes "samplesParser_decode bytes = Inl e"
  shows "\<exists>m. e = RangeError m"
proof -
  have pg: "\<exists>m. e = RangeError m"
    if "decode_page_ids NUM_PAGES d3 = Inr (ps, d4)"
      and "decode_pages ex ps [0..<NUM_PAGES] d5 = Inl e" for d3 ps d4 ex d5
  proof -
    from decode_page_ids_Inr [OF that(1)] have "\<forall>i\<in>set [0..<NUM_PAGES]. i < length ps"
      by simp
    with that(2) show ?thesis by (rule decode_pages_Inl)
  qed
  from assms show ?thesis
    by (auto simp add: samplesParser_decode_def bindE_eq_Inl
          dest: pop32_Inl decode_page_ids_Inl decode_loopExists_Inl pg split: prod.splits)
qed


section \<open>The offset table and the loop data in the returned bytes\<close>

lemma map_slot_at_upt:
  "map (slot_at ls) [0..<n] = take n ls @ replicate (n - length ls) None"
  by (auto simp add: list_eq_iff_nth_eq slot_at_simps nth_append)

lemma present_loops_append: "present_loops (xs @ ys) = present_loops xs @ present_loops ys"
  by (induction xs rule: present_loops.induct) simp_all

lemma present_loops_replicate_None: "present_loops (replicate n None) = []"
  by (induction n) simp_all

lemma present_loops_page_slots:
  "present_loops (page_slots page) = present_loops (take LOOPS_PER_PAGE (loops page))"
  by (simp add: page_slots_def map_slot_at_upt present_loops_append present_loops_replicate_None)

lemma present_loops_concat:
  "present_loops (concat xss) = concat (map present_loops xss)"
  by (induction xss) (simp_all add: present_loops_append)

lemma stored_loops_pack_slots: "present_loops (pack_slots pack) = stored_loops pack"
  by (simp add: pack_slots_def stored_loops_def present_loops_concat comp_def
      present_loops_page_slots)

lemma encode_slots_data:
  "encode_slots sl (offs, dat) = Inr (offs', dat') \<Longrightarrow>
     encode_loop_sequence (present_loops sl) dat = Inr dat'"
proof (induction sl arbitrary: offs dat)
  case Nil
  then show ?case by simp
next
  case (Cons s sl)
  then show ?case
    by (cases s) (auto simp add: bindE_eq_Inr)
qed

lemma encode_slots_prefix:
  "encode_slots sl (offs, dat) = Inr (offs', dat') \<Longrightarrow> take (length offs) offs' = offs"
proof (induction sl arbitrary: offs dat)
  case Nil
  then show ?case by simp
next
  case (Cons s sl)
  show ?case
  proof (cases s)
    case None
    with Cons.prems obtain o1 where o: "push16 0xFFFF offs = Inr o1"
      and r: "encode_slots sl (o1, dat) = Inr (offs', dat')"
      by (auto simp add: bindE_eq_Inr)
    from o have o1: "o1 = offs @ [255, 255]" by (simp add: push16_bytes)
    from Cons.IH [OF r] have "take (length offs) (take (length o1) offs') = take (length offs) o1"
      by simp
    then show ?thesis by (simp add: o1 min_def)
  next
    case (Some l)
    with Cons.prems obtain o1 dat1 where o: "push16 (int (length dat)) offs = Inr o1"
      and r: "encode_slots sl (o1, dat1) = Inr (offs', dat')"
      by (auto simp add: bindE_eq_Inr)
    from o obtain x y where o1: "o1 = offs @ [x, y]" by (auto simp add: push16_Inr)
    from Cons.IH [OF r] have "take (length offs) (take (length o1) offs') = take (length offs) o1"
      by simp
    then show ?thesis by (simp add: o1 min_def)
  qed
qed

lemma encode_slots_sentinel:
  "encode_slots sl (offs, dat) = Inr (offs', dat') \<Longrightarrow> k < length sl \<Longrightarrow> sl ! k = None \<Longrightarrow>
     offs' ! (length offs + 2 * k) = 255 \<and> offs' ! (length offs + 2 * k + 1) = 255"
proof (induction sl arbitrary: offs dat k)
  case Nil
  then show ?case by simp
next
  case (Cons s sl)
  show ?case
  proof (cases k)
    case 0
    with Cons.prems have s: "s = None" by simp
    with Cons.prems(1) have r: "encode_slots sl (offs @ [255, 255], dat) = Inr (offs', dat')"
      by (simp add: push16_bytes)
    from encode_slots_prefix [OF r] have t: "take (length offs + 2) offs' = offs @ [255, 255]"
      by simp
    from encode_slots_length [OF r] have l: "length offs + 2 \<le> length offs'" by simp
    have "offs' ! (length offs) = take (length offs + 2) offs' ! (length offs)"
      by simp
    moreover have "offs' ! (length offs + 1) = take (length offs + 2) offs' ! (length offs + 1)"
      by simp
    ultimately show ?thesis
      unfolding t by (simp add: 0 nth_append)
  next
    case (Suc k')
    from Cons.prems(1) obtain o1 dat1 where
      r: "encode_slots sl (o1, dat1) = Inr (offs', dat')" and l: "length o1 = length offs + 2"
      by (cases s) (auto simp add: bindE_eq_Inr push16_Inr)
    from Cons.prems(2,3) Suc have "k' < length sl" "sl ! k' = None" by simp_all
    from Cons.IH [OF r this] show ?thesis
      by (simp add: l Suc)
  qed
qed

lemma nth_concat_uniform:
  "\<forall>xs\<in>set xss. length xs = n \<Longrightarrow> i < length xss \<Longrightarrow> j < n \<Longrightarrow>
     concat xss ! (n * i + j) = xss ! i ! j"
proof (induction xss arbitrary: i)
  case Nil
  then show ?case by simp
next
  case (Cons xs xss)
  show ?case
  proof (cases i)
    case 0
    with Cons.prems show ?thesis by (simp add: nth_append)
  next
    case (Suc i')
    with Cons.prems have "concat xss ! (n * i' + j) = xss ! i' ! j"
      by (intro Cons.IH) simp_all
    moreover have "n * Suc i' + j = n + (n * i' + j)" by simp
    ultimately show ?thesis
      using Cons.prems(1) by (simp add: Suc nth_append del: mult_Suc_right)
  qed
qed

lemma pack_slots_nth:
  assumes "i < NUM_PAGES" and "NUM_PAGES \<le> length (pages pack)" and "j < LOOPS_PER_PAGE"
  shows "pack_slots pack ! (LOOPS_PER_PAGE * i + j) = slot_at (loops (pages pack ! i)) j"
proof -
  let ?xss = "map page_slots (take NUM_PAGES (pages pack))"
  have "\<forall>xs\<in>set ?xss. length xs = LOOPS_PER_PAGE"
    by (auto simp add: page_slots_def)
  moreover from assms have "i < length ?xss" by simp
  ultimately have "concat ?xss ! (LOOPS_PER_PAGE * i + j) = ?xss ! i ! j"
    using assms(3) by (rule nth_concat_uniform)
  with assms show ?thesis
    by (simp add: pack_slots_def page_slots_def)
qed

lemma samplesParser_encode_layout:
  assumes "samplesParser_encode pack = Inr bytes"
  shows "NUM_PAGES \<le> length (pages pack) \<and>
         (\<exists>hd offs dat. length hd = 36 \<and> length offs = 2 * (NUM_PAGES * LOOPS_PER_PAGE) \<and>
            encode_slots (pack_slots pack) ([], []) = Inr (offs, dat) \<and>
            bytes = Uint8Array_from (hd @ offs @ dat))"
proof -
  from samplesParser_encode_Inr [OF assms] obtain hd offs dat where
    n: "NUM_PAGES \<le> length (pages pack)" and h: "length hd = 36"
    and e: "encode_slots (pack_slots pack) ([], []) = Inr (offs, dat)"
    and b: "bytes = Uint8Array_from (hd @ offs @ dat)"
    by blast
  from encode_slots_length [OF e] length_pack_slots [OF n]
  have "length offs = 2 * (NUM_PAGES * LOOPS_PER_PAGE)" by simp
  with n h e b show ?thesis by blast
qed

lemma samplesParser_encode_loop_data:
  assumes "samplesParser_encode pack = Inr bytes"
  shows "\<exists>loopData. encode_loop_sequence (stored_loops pack) [] = Inr loopData \<and>
           length bytes = 336 + length loopData \<and>
           drop 336 bytes = Uint8Array_from loopData"
proof -
  from samplesParser_encode_layout [OF assms] obtain hd offs dat where
    h: "length hd = 36" and o: "length offs = 2 * (NUM_PAGES * LOOPS_PER_PAGE)"
    and e: "encode_slots (pack_slots pack) ([], []) = Inr (offs, dat)"
    and b: "bytes = Uint8Array_from (hd @ offs @ dat)"
    by blast
  from encode_slots_data [OF e]
  have "encode_loop_sequence (stored_loops pack) [] = Inr dat"
    by (simp add: stored_loops_pack_slots)
  moreover from h o have "length bytes = 336 + length dat"
    by (simp add: b Uint8Array_from_def NUM_PAGES_def LOOPS_PER_PAGE_def)
  moreover from h o have "drop 336 bytes = Uint8Array_from dat"
    by (simp add: b Uint8Array_from_def NUM_PAGES_def LOOPS_PER_PAGE_def drop_map)
  ultimately show ?thesis by blast
qed

lemma samplesParser_encode_sentinel:
  assumes "samplesParser_encode pack = Inr bytes"
    and "i < NUM_PAGES" and "length (loops (pages pack ! i)) \<le> j" and "j < LOOPS_PER_PAGE"
  shows "bytes ! (36 + 2 * (LOOPS_PER_PAGE * i + j)) = 0xFF \<and>
         bytes ! (36 + 2 * (LOOPS_PER_PAGE * i + j) + 1) = 0xFF"
proof -
  from samplesParser_encode_layout [OF assms(1)] obtain hd offs dat where
    n: "NUM_PAGES \<le> length (pages pack)"
    and h: "length hd = 36" and o: "length offs = 2 * (NUM_PAGES * LOOPS_PER_PAGE)"
    and e: "encode_slots (pack_slots pack) ([], []) = Inr (offs, dat)"
    and b: "bytes = Uint8Array_from (hd @ offs @ dat)"
    by blast
  let ?k = "LOOPS_PER_PAGE * i + j"
  from assms(2,4) have k: "?k < NUM_PAGES * LOOPS_PER_PAGE"
    by (simp add: NUM_PAGES_def LOOPS_PER_PAGE_def)
  then have kl: "?k < length (pack_slots pack)"
    by (simp add: length_pack_slots [OF n])
  from pack_slots_nth [OF assms(2) n assms(4)] assms(3)
  have "pack_slots pack ! ?k = None"
    by (simp add: slot_at_simps)
  from encode_slots_sentinel [OF e kl this]
  have s: "offs ! (2 * ?k) = 255" "offs ! (2 * ?k + 1) = 255" by simp_all
  from k o have l: "2 * ?k < length offs" "2 * ?k + 1 < length offs" by simp_all
  let ?all = "hd @ offs @ dat"
  have v0: "?all ! (36 + 2 * ?k) = 255"
    using h l(1) s(1) by (simp add: nth_append)
  have v1: "?all ! (36 + 2 * ?k + 1) = 255"
    using h l(2) s(2) by (simp add: nth_append)
  have l0: "36 + 2 * ?k < length ?all" and l1: "36 + 2 * ?k + 1 < length ?all"
    using h l by simp_all
  have "bytes ! (36 + 2 * ?k) = word_of_int (?all ! (36 + 2 * ?k))"
    unfolding b Uint8Array_from_def using l0 by (rule nth_map)
  moreover have "bytes ! (36 + 2 * ?k + 1) = word_of_int (?all ! (36 + 2 * ?k + 1))"
    unfolding b Uint8Array_from_def using l1 by (rule nth_map)
  ultimately show ?thesis
    by (simp only: v0 v1) simp
qed

section \<open>The 32-bit header words\<close>

text \<open>
  Claim C9. For every integer \<open>v\<close> with \<open>0 \<le> v \<le> 4294967295\<close>, \<open>push32 v\<close> on an empty
  byte array succeeds and writes four bytes, and \<open>pop32\<close> on those bytes (whatever
  follows them) returns exactly \<open>v\<close> and leaves what follows: the reassembly
  \<open>b0 | b1 << 8 | b2 << 16 | b3 << 24\<close> is negative for \<open>v \<ge> 2^31\<close> and \<open>>>> 0\<close> makes it
  unsigned again.
\<close>

theorem push32_pop32_roundtrip:
  assumes "0 \<le> v" and "v \<le> 4294967295"
  shows "\<exists>bs. push32 v [] = Inr bs \<and> length bs = 4 \<and>
              (\<forall>rest. pop32 (bs @ rest) = Inr (v, rest))"
  using assms pop32_bytes [of v] by (simp add: push32_bytes)

theorem push32_pop32_roundtrip_witness:
  "push32 0xFFFFFFFF [] = Inr [255, 255, 255, 255] \<and>
   pop32 ([255, 255, 255, 255] @ [1, 2]) = Inr (0xFFFFFFFF, [1, 2]) \<and>
   js_or (js_or (js_or 255 (js_shl 255 8)) (js_shl 255 16)) (js_shl 255 24) = - 1"
proof -
  from push32_pop32_roundtrip [of "0xFFFFFFFF"] obtain bs where
    bs: "push32 0xFFFFFFFF [] = Inr bs" "\<forall>rest. pop32 (bs @ rest) = Inr (0xFFFFFFFF, rest)"
    by auto
  have p: "push32 0xFFFFFFFF [] = Inr [255, 255, 255, 255]"
    by (simp add: push32_bytes)
  with bs have "pop32 ([255, 255, 255, 255] @ [1, 2]) = Inr (0xFFFFFFFF, [1, 2])"
    by simp
  moreover have "js_or (js_or (js_or 255 (js_shl 255 8)) (js_shl 255 16)) (js_shl 255 24) = - 1"
    by (simp add: js_or_def js_shl_def ToInt32_def ToUint32_def)
  ultimately show ?thesis using p by simp
qed

section \<open>Size agreement\<close>

text \<open>
  Claim C5. For every valid pack (ten pages, at most 15 slots per page, every field
  within its width, less than 0xFFFF bytes of loop data) \<open>samplesParser_encode\<close>
  succeeds and its result is \<open>336 + getPackSize pack\<close> bytes long; \<open>getPackSize\<close> is the
  sum of \<open>getPageByteSize\<close> over the pages, and \<open>getPageByteSize\<close> counts
  \<open>2 + 4 * eventCount\<close> for a present loop and nothing for a \<open>null\<close> slot.
\<close>

theorem encode_length_is_336_plus_getPackSize:
  assumes "valid_pack pack"
  shows "(\<exists>bytes. samplesParser_encode pack = Inr bytes \<and>
            length bytes = 336 + getPackSize pack) \<and>
         getPackSize pack = (\<Sum>page\<leftarrow>pages pack. getPageByteSize page) \<and>
         getPageByteSize page =
           (\<Sum>slot\<leftarrow>loops page. case slot of None \<Rightarrow> 0 | Some l \<Rightarrow> 2 + 4 * length (events l))"
proof (intro conjI)
  show "\<exists>bytes. samplesParser_encode pack = Inr bytes \<and>
          length bytes = 336 + getPackSize pack"
    using assms by (rule valid_pack_encodes)
  show "getPackSize pack = (\<Sum>page\<leftarrow>pages pack. getPageByteSize page)"
    by (rule getPackSize_sum)
  show "getPageByteSize page =
          (\<Sum>slot\<leftarrow>loops page. case slot of None \<Rightarrow> 0 | Some l \<Rightarrow> 2 + 4 * length (events l))"
    by (simp only: getPageByteSize_slots slots_size_sum_list)
qed

theorem encode_length_is_336_plus_getPackSize_witness:
  "valid_pack dummySamples \<and> getPackSize dummySamples = 172 \<and>
   (\<exists>bytes. samplesParser_encode dummySamples = Inr bytes \<and> length bytes = 508)"
proof -
  have v: "valid_pack dummySamples" by (rule valid_dummySamples)
  from encode_length_is_336_plus_getPackSize [OF v] getPackSize_dummySamples v
  show ?thesis by simp
qed

section \<open>Event counts and tick offsets\<close>

text \<open>
  Claim C4. Take a pack whose header is valid and whose other loop fields
  (\<open>length_beats\<close>, \<open>state\<close>) are within range. If some loop the encoder visits has
  more than 255 events or an event whose tick offset is outside \<open>[0, 65535]\<close>, then
  \<open>samplesParser_encode\<close> throws a \<open>RangeError\<close> and returns nothing. If every visited
  loop passes both checks, the encoder either returns a buffer or throws the
  \<open>RangeError\<close> of \<open>push16\<close> for a loop-data offset above 0xFFFF: no check on an event
  count or a tick offset fires.
\<close>

theorem encode_range_checks:
  assumes "valid_header pack"
    and "list_all (\<lambda>slot. case slot of None \<Rightarrow> True | Some l \<Rightarrow> other_fields_ok l)
           (pack_slots pack)"
  shows "((\<exists>l. Some l \<in> set (pack_slots pack) \<and> \<not> counts_and_ticks_ok l) \<longrightarrow>
            (\<exists>m. samplesParser_encode pack = Inl (RangeError m))) \<and>
         ((\<forall>l. Some l \<in> set (pack_slots pack) \<longrightarrow> counts_and_ticks_ok l) \<longrightarrow>
            (\<exists>bytes. samplesParser_encode pack = Inr bytes) \<or>
            (\<exists>pre l post. pack_slots pack = pre @ Some l # post \<and> 0xFFFF < slots_size pre \<and>
               samplesParser_encode pack =
                 Inl (RangeError (OutOfRange16 (int (slots_size pre))))))"
proof (intro conjI impI)
  assume "\<exists>l. Some l \<in> set (pack_slots pack) \<and> \<not> counts_and_ticks_ok l"
  moreover from assms(1) have "NUM_PAGES \<le> length (pages pack)"
    by (simp add: valid_header_def)
  ultimately show "\<exists>m. samplesParser_encode pack = Inl (RangeError m)"
    using encode_checks_fire by blast
next
  assume a: "\<forall>l. Some l \<in> set (pack_slots pack) \<longrightarrow> counts_and_ticks_ok l"
  have "encodable_slot slot" if "slot \<in> set (pack_slots pack)" for slot
  proof (cases slot)
    case None
    then show ?thesis by (simp add: encodable_slot_simps)
  next
    case (Some l)
    with that a have "counts_and_ticks_ok l" by blast
    moreover from assms(2) that Some have "other_fields_ok l"
      by (force simp add: list_all_iff)
    ultimately show ?thesis by (simp add: Some encodable_slot_simps)
  qed
  then have "list_all encodable_slot (pack_slots pack)"
    by (simp add: list_all_iff)
  from encode_checks_silent [OF assms(1) this]
  show "(\<exists>bytes. samplesParser_encode pack = Inr bytes) \<or>
        (\<exists>pre l post. pack_slots pack = pre @ Some l # post \<and> 0xFFFF < slots_size pre \<and>
           samplesParser_encode pack = Inl (RangeError (OutOfRange16 (int (slots_size pre)))))" .
qed

theorem encode_range_checks_witness:
  "samplesParser_encode (single_loop_pack 0 0 (one_event_loop 65536 60 1 100)) =
     Inl (RangeError (OutOfRange16 65536)) \<and>
   (\<exists>bytes. samplesParser_encode dummySamples = Inr bytes)"
proof -
  let ?l = "one_event_loop 65536 60 1 100"
  let ?bad = "single_loop_pack 0 0 ?l"
  have o: "other_fields_ok ?l" and n: "\<not> counts_and_ticks_ok ?l"
    by (simp_all add: one_event_loop_def other_fields_ok_def counts_and_ticks_ok_def
          beats_ok_def state_ok_def ticks_ok_def)
  from o set_pack_slots_single [of 0 0 ?l]
  have "list_all (\<lambda>slot. case slot of None \<Rightarrow> True | Some l \<Rightarrow> other_fields_ok l) (pack_slots ?bad)"
    by (auto simp add: list_all_iff)
  from encode_range_checks [OF valid_header_single this]
    Some_in_pack_slots_single [of 0 0 ?l] n
  obtain m where m: "samplesParser_encode ?bad = Inl (RangeError m)"
    by auto
  have bad: "samplesParser_encode ?bad = Inl (RangeError (OutOfRange16 65536))"
    by code_simp
  note v = valid_dummySamples
  note s = valid_pack_slots [OF v]
  from s(1) have a: "list_all (\<lambda>slot. case slot of None \<Rightarrow> True | Some l \<Rightarrow> other_fields_ok l)
      (pack_slots dummySamples)"
    by (auto simp add: list_all_iff encodable_slot_def split: option.splits)
  from s(1) have b: "\<forall>l. Some l \<in> set (pack_slots dummySamples) \<longrightarrow> counts_and_ticks_ok l"
    by (auto simp add: list_all_iff encodable_slot_def split: option.splits)
  from v have h: "valid_header dummySamples" by (simp add: valid_pack_def)
  have "\<not> (pack_slots dummySamples = pre @ Some l # post \<and> 0xFFFF < slots_size pre)" for pre l post
    using s(2) getPackSize_dummySamples slots_size_append [of pre "Some l # post"] by auto
  with encode_range_checks [OF h a] b have "\<exists>bytes. samplesParser_encode dummySamples = Inr bytes"
    by blast
  with bad show ?thesis by simp
qed

section \<open>Offsets and the sentinel\<close>

text \<open>
  Claim C3. Suppose the header of the pack is valid and the encoder has worked through
  the slots \<open>pre\<close> without a throw, leaving \<open>dat\<close> in the loop-data buffer, and the next
  slot holds a loop. If \<open>dat\<close> has 0xFFFF bytes or more, \<open>samplesParser_encode\<close> throws
  the \<open>RangeError\<close> of \<open>push16\<close> for that length and returns no buffer. (A loop takes an
  even number of bytes, so the length is never exactly 0xFFFF.) And whenever the
  encoder returns a buffer, the presence flags that \<open>decode_loopExists\<close> reads from its
  offset table (an entry other than 0xFFFF means present) are exactly the presence of
  the 150 slots: no entry of a present loop is the sentinel.
\<close>

theorem offset_never_sentinel:
  "(valid_header pack \<and> pack_slots pack = pre @ Some l # post \<and>
    encode_slots pre ([], []) = Inr (offs, dat) \<and> 0xFFFF \<le> length dat \<longrightarrow>
      samplesParser_encode pack = Inl (RangeError (OutOfRange16 (int (length dat))))) \<and>
   (samplesParser_encode pack = Inr bytes \<longrightarrow>
      decode_loopExists (NUM_PAGES * LOOPS_PER_PAGE) (drop 36 (ByteArray_from bytes))
        = Inr (map (\<lambda>slot. slot \<noteq> None) (pack_slots pack), drop 336 (ByteArray_from bytes)))"
proof (intro conjI impI)
  assume a: "valid_header pack \<and> pack_slots pack = pre @ Some l # post \<and>
    encode_slots pre ([], []) = Inr (offs, dat) \<and> 0xFFFF \<le> length dat"
  then have "encode_slots (pack_slots pack) ([], []) =
      Inl (RangeError (OutOfRange16 (int (length dat))))"
    by (simp add: encode_slots_offset_overflow)
  moreover from a samplesParser_encode_valid_header [of pack] obtain hd where
    "samplesParser_encode pack =
       bindE (encode_slots (pack_slots pack) ([], []))
         (\<lambda>(offs, dat). Inr (Uint8Array_from (hd @ offs @ dat)))"
    by blast
  ultimately show "samplesParser_encode pack = Inl (RangeError (OutOfRange16 (int (length dat))))"
    by simp
next
  assume "samplesParser_encode pack = Inr bytes"
  then show "decode_loopExists (NUM_PAGES * LOOPS_PER_PAGE) (drop 36 (ByteArray_from bytes))
        = Inr (map (\<lambda>slot. slot \<noteq> None) (pack_slots pack), drop 336 (ByteArray_from bytes))"
    by (rule encode_offset_table)
qed

theorem offset_never_sentinel_witness:
  "samplesParser_encode full_pack = Inl (RangeError (OutOfRange16 66430)) \<and>
   (\<exists>bytes. samplesParser_encode dummySamples = Inr bytes \<and>
      decode_loopExists 150 (drop 36 (ByteArray_from bytes))
        = Inr (replicate 30 False @ [True, True] @ replicate 118 False,
               drop 336 (ByteArray_from bytes)))"
proof -
  let ?pre = "replicate 65 (Some full_loop)"
  have "list_all encodable_slot ?pre"
    by (simp add: list_all_iff encodable_full_loop)
  moreover have "offsets_fit (length ([]::int list)) (replicate (Suc 64) (Some full_loop))"
    unfolding offsets_fit_replicate_Some by (simp add: loop_size_full_loop)
  then have "offsets_fit (length ([]::int list)) ?pre" by simp
  ultimately obtain offs dat where e: "encode_slots ?pre ([], []) = Inr (offs, dat)"
    using encode_slots_fit_ok [of ?pre "[]" "[]"] by auto
  from encode_slots_length [OF e] have len: "length dat = 66430"
    by (simp add: slots_size_replicate_Some loop_size_full_loop)
  have "replicate 150 (Some full_loop) = ?pre @ Some full_loop # replicate 84 (Some full_loop)"
    by (simp add: replicate_add [symmetric] replicate_Suc [symmetric] del: replicate_Suc)
  then have "pack_slots full_pack = ?pre @ Some full_loop # replicate 84 (Some full_loop)"
    by (simp only: pack_slots_full_pack)
  with offset_never_sentinel [of full_pack ?pre full_loop "replicate 84 (Some full_loop)" offs dat]
    valid_header_full_pack e len
  have A: "samplesParser_encode full_pack = Inl (RangeError (OutOfRange16 66430))"
    by simp
  from valid_pack_encodes [OF valid_dummySamples] obtain bytes where
    b: "samplesParser_encode dummySamples = Inr bytes" by blast
  have "map (\<lambda>slot. slot \<noteq> None) (pack_slots dummySamples)
      = replicate 30 False @ [True, True] @ replicate 118 False"
    by (simp add: pack_slots_dummySamples generateDummyPage2_def)
  with offset_never_sentinel [where pack = dummySamples and bytes = bytes] b
  have "decode_loopExists 150 (drop 36 (ByteArray_from bytes))
        = Inr (replicate 30 False @ [True, True] @ replicate 118 False,
               drop 336 (ByteArray_from bytes))"
    by (simp add: NUM_PAGES_def LOOPS_PER_PAGE_def)
  with A b show ?thesis by blast
qed

section \<open>Short \<open>loops\<close> arrays\<close>

text \<open>
  Claim C10. Take a page \<open>i\<close> whose \<open>loops\<close> array has fewer than 15 entries.

  \<^item> Encoding the pack gives the same result (the same bytes or the same error) as encoding
    it with that page padded with \<open>null\<close> to 15 entries.
  \<^item> A valid pack is encoded, so the statements below speak about bytes that exist.
  \<^item> In the bytes \<open>samplesParser_encode\<close> returns, the offset table starts at byte 36 (after
    the 16 reserved bytes and the 20 bytes of page ids) and the entry of slot \<open>loop_idx\<close> of
    page \<open>i\<close> is at bytes \<open>36 + 2 * (15 * i + loop_idx)\<close> and the next one. For every slot
    past the end of the \<open>loops\<close> array of one of the ten encoded pages, both bytes are
    \<open>0xFF\<close>: the entry is the sentinel \<open>0xFFFF\<close>.
  \<^item> The bytes from 336 on, the loop data, are exactly the encodings of the loops stored in
    the arrays, one after the other: a missing slot adds no byte to them.
\<close>

theorem short_loops_array_is_null_padded:
  assumes "length (loops (pages pack ! i)) < LOOPS_PER_PAGE"
  shows "samplesParser_encode
           (pack\<lparr>pages := (pages pack)
              [i := (pages pack ! i)\<lparr>loops := loops (pages pack ! i) @
                 replicate (LOOPS_PER_PAGE - length (loops (pages pack ! i))) None\<rparr>]\<rparr>)
         = samplesParser_encode pack \<and>
         (valid_pack pack \<longrightarrow> (\<exists>bytes. samplesParser_encode pack = Inr bytes)) \<and>
         (\<forall>bytes. samplesParser_encode pack = Inr bytes \<longrightarrow>
            (\<exists>loopData. encode_loop_sequence (stored_loops pack) [] = Inr loopData \<and>
               length bytes = 336 + length loopData \<and>
               drop 336 bytes = Uint8Array_from loopData) \<and>
            (\<forall>loop_idx.
               i < NUM_PAGES \<and> length (loops (pages pack ! i)) \<le> loop_idx \<and>
               loop_idx < LOOPS_PER_PAGE \<longrightarrow>
               bytes ! (36 + 2 * (LOOPS_PER_PAGE * i + loop_idx)) = 0xFF \<and>
               bytes ! (36 + 2 * (LOOPS_PER_PAGE * i + loop_idx) + 1) = 0xFF))"
proof (intro conjI allI impI)
  show "samplesParser_encode
           (pack\<lparr>pages := (pages pack)
              [i := (pages pack ! i)\<lparr>loops := loops (pages pack ! i) @
                 replicate (LOOPS_PER_PAGE - length (loops (pages pack ! i))) None\<rparr>]\<rparr>)
         = samplesParser_encode pack"
    by (rule encode_pad_page)
next
  assume "valid_pack pack"
  from valid_pack_encodes [OF this]
  show "\<exists>bytes. samplesParser_encode pack = Inr bytes" by blast
next
  fix bytes
  assume "samplesParser_encode pack = Inr bytes"
  then show "\<exists>loopData. encode_loop_sequence (stored_loops pack) [] = Inr loopData \<and>
               length bytes = 336 + length loopData \<and>
               drop 336 bytes = Uint8Array_from loopData"
    by (rule samplesParser_encode_loop_data)
next
  fix bytes loop_idx
  assume e: "samplesParser_encode pack = Inr bytes"
    and a: "i < NUM_PAGES \<and> length (loops (pages pack ! i)) \<le> loop_idx \<and>
               loop_idx < LOOPS_PER_PAGE"
  from samplesParser_encode_sentinel [OF e] a
  show "bytes ! (36 + 2 * (LOOPS_PER_PAGE * i + loop_idx)) = 0xFF"
    by blast
  from samplesParser_encode_sentinel [OF e] a
  show "bytes ! (36 + 2 * (LOOPS_PER_PAGE * i + loop_idx) + 1) = 0xFF"
    by blast
qed

theorem short_loops_array_is_null_padded_witness:
  "length (loops (pages dummySamples ! 2)) = 2 \<and>
   samplesParser_encode
     (dummySamples\<lparr>pages := (pages dummySamples)
        [2 := generateDummyPage2\<lparr>loops := loops generateDummyPage2 @ replicate 13 None\<rparr>]\<rparr>)
     = samplesParser_encode dummySamples \<and>
   (\<exists>bytes loopData. samplesParser_encode dummySamples = Inr bytes \<and>
      encode_loop_sequence (stored_loops dummySamples) [] = Inr loopData \<and>
      length loopData = 172 \<and> length bytes = 508 \<and>
      drop 336 bytes = Uint8Array_from loopData \<and>
      bytes ! 100 = 0xFF \<and> bytes ! 101 = 0xFF \<and> bytes ! 124 = 0xFF \<and> bytes ! 125 = 0xFF)"
proof -
  have p: "pages dummySamples ! 2 = generateDummyPage2"
    by (simp add: pages_dummySamples)
  have l: "length (loops generateDummyPage2) = 2"
    by (simp add: generateDummyPage2_def)
  from p l have h: "length (loops (pages dummySamples ! 2)) < LOOPS_PER_PAGE"
    by (simp add: LOOPS_PER_PAGE_def)
  note t = short_loops_array_is_null_padded [of dummySamples 2, OF h]
  from t have pad: "samplesParser_encode
     (dummySamples\<lparr>pages := (pages dummySamples)
        [2 := generateDummyPage2\<lparr>loops := loops generateDummyPage2 @ replicate 13 None\<rparr>]\<rparr>)
     = samplesParser_encode dummySamples"
    by (simp add: p l LOOPS_PER_PAGE_def)
  from t valid_dummySamples obtain bytes where e: "samplesParser_encode dummySamples = Inr bytes"
    by blast
  from valid_pack_encodes [OF valid_dummySamples] e have n: "length bytes = 508"
    by (simp add: getPackSize_dummySamples)
  from t e obtain loopData where
    d: "encode_loop_sequence (stored_loops dummySamples) [] = Inr loopData"
       "length bytes = 336 + length loopData"
       "drop 336 bytes = Uint8Array_from loopData"
    by blast
  from t e have s: "2 < NUM_PAGES \<and> length (loops (pages dummySamples ! 2)) \<le> loop_idx \<and>
       loop_idx < LOOPS_PER_PAGE \<longrightarrow>
       bytes ! (36 + 2 * (LOOPS_PER_PAGE * 2 + loop_idx)) = 0xFF \<and>
       bytes ! (36 + 2 * (LOOPS_PER_PAGE * 2 + loop_idx) + 1) = 0xFF" for loop_idx
    by blast
  from s [of 2] s [of 14] have "bytes ! 100 = 0xFF \<and> bytes ! 101 = 0xFF \<and>
      bytes ! 124 = 0xFF \<and> bytes ! 125 = 0xFF"
    by (simp add: p l NUM_PAGES_def LOOPS_PER_PAGE_def)
  with e d n have "samplesParser_encode dummySamples = Inr bytes \<and>
      encode_loop_sequence (stored_loops dummySamples) [] = Inr loopData \<and>
      length loopData = 172 \<and> length bytes = 508 \<and>
      drop 336 bytes = Uint8Array_from loopData \<and>
      bytes ! 100 = 0xFF \<and> bytes ! 101 = 0xFF \<and> bytes ! 124 = 0xFF \<and> bytes ! 125 = 0xFF"
    by simp
  then have "\<exists>bytes loopData. samplesParser_encode dummySamples = Inr bytes \<and>
      encode_loop_sequence (stored_loops dummySamples) [] = Inr loopData \<and>
      length loopData = 172 \<and> length bytes = 508 \<and>
      drop 336 bytes = Uint8Array_from loopData \<and>
      bytes ! 100 = 0xFF \<and> bytes ! 101 = 0xFF \<and> bytes ! 124 = 0xFF \<and> bytes ! 125 = 0xFF"
    by blast
  with p l pad show ?thesis by simp
qed

section \<open>An out-of-range \<open>state\<close>\<close>

lemma encode_event_state_rejected:
  assumes "state e mod 2 ^ 25 \<noteq> 0" and "state e mod 2 ^ 25 \<noteq> 1"
  shows "encode_event (t, e) d =
           Inl (RangeError (OutOfRange8 (js_or (js_shl (state e) 7) (js_and (velocity e) 0x7F))))"
proof -
  let ?p = "js_or (js_shl (state e) 7) (js_and (velocity e) 0x7F)"
  have "0 \<le> take_bit 7 (note_val e) \<and> take_bit 7 (note_val e) \<le> 255"
    by (rule take_bit_7_range)
  then have n: "push8 (js_and (note_val e) 0x7F) d = Inr (d @ [take_bit 7 (note_val e)])"
    by (simp add: push8_bytes js_and_0x7F take_bit_int_eq_self)
  have "0 \<le> ?p \<and> ?p \<le> 255 \<longleftrightarrow> state e mod 2 ^ 25 = 0 \<or> state e mod 2 ^ 25 = 1"
    by (simp only: packed_in_range_iff bits_1_24_iff)
  with assms have "\<not> (0 \<le> ?p \<and> ?p \<le> 255)" by blast
  then have "push8 ?p (d @ [take_bit 7 (note_val e)]) = Inl (RangeError (OutOfRange8 ?p))"
    by (auto simp add: push8_def)
  with n show ?thesis by simp
qed


text \<open>
  Claim C7, as it stands, says that for some event with a \<open>state\<close> outside \<open>{0, 1}\<close> the
  encoder succeeds and writes a packed byte whose velocity bits are corrupted. No such
  event exists: whenever \<open>encode_event\<close> succeeds, the low seven bits of the packed byte
  (the second byte it appends) are those of \<open>velocity\<close>.
\<close>

theorem velocity_bits_never_corrupted:
  "\<not> (\<exists>t e d d'. state e \<noteq> 0 \<and> state e \<noteq> 1 \<and> encode_event (t, e) d = Inr d' \<and>
         js_and (d' ! (length d + 1)) 0x7F \<noteq> js_and (velocity e) 0x7F)"
proof
  assume "\<exists>t e d d'. state e \<noteq> 0 \<and> state e \<noteq> 1 \<and> encode_event (t, e) d = Inr d' \<and>
         js_and (d' ! (length d + 1)) 0x7F \<noteq> js_and (velocity e) 0x7F"
  then obtain t e d d' where enc: "encode_event (t, e) d = Inr d'"
    and ne: "js_and (d' ! (length d + 1)) 0x7F \<noteq> js_and (velocity e) 0x7F"
    by blast
  from enc have "d' = d @ [note_val e mod 128, (state e mod 2) * 128 + velocity e mod 128,
                t mod 256, t div 256 mod 256]"
    by (simp only: encode_event_Inr_iff)
  then have "d' ! (length d + 1) = (state e mod 2) * 128 + velocity e mod 128"
    by (simp add: nth_append)
  then have "js_and (d' ! (length d + 1)) 0x7F = js_and (velocity e) 0x7F"
    by (simp add: js_and_0x7F take_bit_eq_mod)
  with ne show False by contradiction
qed

text \<open>
  Claim C7, amended. The encoder does not check \<open>state\<close> itself, but \<open>push8\<close> checks the
  packed value \<open>(state << 7) | (velocity & 0x7F)\<close>. Encoding an event succeeds exactly
  when \<open>state\<close> is 0 or 1 modulo \<open>2^25\<close> and the tick offset is within \<open>[0, 65535]\<close>; the
  packed byte is then \<open>(state mod 2) * 128 + velocity mod 128\<close>, so the velocity bits
  are those of \<open>velocity\<close> and only the state is cut to its lowest bit. For every
  other \<open>state\<close> (2, 3, -1, ...) \<open>push8\<close> throws a \<open>RangeError\<close> for the packed value.
\<close>

theorem state_checked_through_packed_byte:
  "(encode_event (t, e) d = Inr d' \<longleftrightarrow>
      (state e mod 2 ^ 25 = 0 \<or> state e mod 2 ^ 25 = 1) \<and> 0 \<le> t \<and> t \<le> 65535 \<and>
      d' = d @ [note_val e mod 128, (state e mod 2) * 128 + velocity e mod 128,
                t mod 256, t div 256 mod 256]) \<and>
   (state e mod 2 ^ 25 \<noteq> 0 \<and> state e mod 2 ^ 25 \<noteq> 1 \<longrightarrow>
      encode_event (t, e) d =
        Inl (RangeError (OutOfRange8 (js_or (js_shl (state e) 7) (js_and (velocity e) 0x7F)))))"
  using encode_event_Inr_iff [of t e d d'] encode_event_state_rejected [of e t d]
  by blast

theorem state_checked_through_packed_byte_witness:
  "encode_event (12, \<lparr>note_val = 60, state = 2, velocity = 99\<rparr>) [] =
     Inl (RangeError (OutOfRange8 355)) \<and>
   encode_event (12, \<lparr>note_val = 60, state = 33554432, velocity = 99\<rparr>) [] =
     Inr [60, 99, 12, 0] \<and>
   samplesParser_encode (single_loop_pack 0 0 (one_event_loop 12 60 2 99)) =
     Inl (RangeError (OutOfRange8 355))"
proof -
  have p: "js_or (js_shl 2 7) (js_and 99 0x7F) = 355"
    by (simp add: js_or_def js_shl_def js_and_def ToInt32_def ToUint32_def)
  from state_checked_through_packed_byte
    [of 12 "\<lparr>note_val = 60, state = 2, velocity = 99\<rparr>" "[]"]
  have a: "encode_event (12, \<lparr>note_val = 60, state = 2, velocity = 99\<rparr>) [] =
     Inl (RangeError (OutOfRange8 355))"
    by (simp add: p)
  from state_checked_through_packed_byte
    [of 12 "\<lparr>note_val = 60, state = 33554432, velocity = 99\<rparr>" "[]" "[60, 99, 12, 0]"]
  have b: "encode_event (12, \<lparr>note_val = 60, state = 33554432, velocity = 99\<rparr>) [] =
     Inr [60, 99, 12, 0]"
    by simp
  have c: "samplesParser_encode (single_loop_pack 0 0 (one_event_loop 12 60 2 99)) =
     Inl (RangeError (OutOfRange8 355))"
    by code_simp
  from a b c show ?thesis by simp
qed


section \<open>The decoder and the offset values\<close>

lemma uint_eq_255: "uint (w :: 8 word) = 255 \<longleftrightarrow> w = 0xFF"
proof -
  have "uint (0xFF :: 8 word) = 255" by simp
  then show ?thesis by (metis word_uint_eq_iff)
qed


text \<open>
  Claim C8. Take two buffers with the same 36 header bytes and the same bytes from
  offset 336 on, whose offset tables (bytes 36 to 335) may differ, but only in entries
  that are not the sentinel in either buffer: an entry is \<open>0xFF 0xFF\<close> in one exactly
  when it is in the other. Then \<open>samplesParser_decode\<close> returns the same result for
  both (the same pack or the same error): it reads an offset entry only to compare it
  with 0xFFFF.
\<close>

theorem decode_reads_offsets_as_flags:
  assumes "length h = 36" and "length t1 = 300" and "length t2 = 300"
    and "\<forall>k<150. (t1 ! (2 * k) = 0xFF \<and> t1 ! (2 * k + 1) = 0xFF)
                 \<longleftrightarrow> (t2 ! (2 * k) = 0xFF \<and> t2 ! (2 * k + 1) = 0xFF)"
  shows "samplesParser_decode (h @ t1 @ r) = samplesParser_decode (h @ t2 @ r)"
proof -
  define d where "d = map uint h"
  from assms(1) have len: "length d = 36" by (simp add: d_def)
  from len pop32_frame [of d] obtain r0 where
    r0: "\<forall>X. pop32 (d @ X) = Inr (r0, drop 4 d @ X)" by auto
  from len pop32_frame [of "drop 4 d"] obtain r1 where
    r1: "\<forall>X. pop32 (drop 4 d @ X) = Inr (r1, drop 8 d @ X)" by auto
  from len pop32_frame [of "drop 8 d"] obtain r2 where
    r2: "\<forall>X. pop32 (drop 8 d @ X) = Inr (r2, drop 12 d @ X)" by auto
  from len pop32_frame [of "drop 12 d"] obtain r3 where
    r3: "\<forall>X. pop32 (drop 12 d @ X) = Inr (r3, drop 16 d @ X)" by auto
  from len decode_page_ids_frame [of NUM_PAGES "drop 16 d"] obtain ps where
    ps: "\<forall>X. decode_page_ids NUM_PAGES (drop 16 d @ X) = Inr (ps, X)"
    by (auto simp add: NUM_PAGES_def)
  have b: "list_all is_byte (map uint t1)" "list_all is_byte (map uint t2)"
    by (simp_all add: list_all_iff is_byte_uint)
  have f: "\<forall>k<150. (map uint t1 ! (2 * k) = 255 \<and> map uint t1 ! (2 * k + 1) = 255)
                 \<longleftrightarrow> (map uint t2 ! (2 * k) = 255 \<and> map uint t2 ! (2 * k + 1) = 255)"
  proof (intro allI impI)
    fix k :: nat
    assume k: "k < 150"
    with assms(2,3) have "2 * k < length t1" "2 * k + 1 < length t1"
      "2 * k < length t2" "2 * k + 1 < length t2" by simp_all
    then show "(map uint t1 ! (2 * k) = 255 \<and> map uint t1 ! (2 * k + 1) = 255)
                 \<longleftrightarrow> (map uint t2 ! (2 * k) = 255 \<and> map uint t2 ! (2 * k + 1) = 255)"
      using assms(4) [rule_format, OF k] by (simp add: uint_eq_255)
  qed
  from assms(2,3) have "length (map uint t1) = 2 * 150" "length (map uint t2) = 2 * 150"
    by simp_all
  from decode_loopExists_flags [OF this b f, of "map uint r"] obtain ex where
    ex: "decode_loopExists 150 (map uint t1 @ map uint r) = Inr (ex, map uint r)"
        "decode_loopExists 150 (map uint t2 @ map uint r) = Inr (ex, map uint r)"
    by blast
  have n: "NUM_PAGES * LOOPS_PER_PAGE = 150"
    by (simp add: NUM_PAGES_def LOOPS_PER_PAGE_def)
  have "ByteArray_from (h @ t @ r) = d @ map uint t @ map uint r" for t
    by (simp add: ByteArray_from_def d_def)
  then show ?thesis
    by (simp add: samplesParser_decode_def r0 r1 r2 r3 ps n ex)
qed


theorem decode_reads_offsets_as_flags_witness:
  "samplesParser_decode
     (replicate 36 0xFF @ ([0x34, 0x12] @ replicate 298 0xFF) @ [4, 0])
   = samplesParser_decode
     (replicate 36 0xFF @ ([0, 0] @ replicate 298 0xFF) @ [4, 0]) \<and>
   samplesParser_decode
     (replicate 36 0xFF @ ([0, 0] @ replicate 298 0xFF) @ [4, 0])
   = Inr \<lparr>reserved0 = Some 0xFFFFFFFF, reserved1 = Some 0xFFFFFFFF,
          reserved2 = Some 0xFFFFFFFF, reserved3 = Some 0xFFFFFFFF,
          pages = \<lparr>page_id = 0xFFFF,
                    loops = Some \<lparr>length_beats = 4, events = []\<rparr> # replicate 14 None\<rparr>
                  # replicate 9 emptyPage\<rparr>"
proof -
  let ?t1 = "[0x34, 0x12] @ replicate 298 (0xFF :: 8 word)"
  let ?t2 = "[0, 0] @ replicate 298 (0xFF :: 8 word)"
  have "\<forall>k<150. (?t1 ! (2 * k) = 0xFF \<and> ?t1 ! (2 * k + 1) = 0xFF)
                 \<longleftrightarrow> (?t2 ! (2 * k) = 0xFF \<and> ?t2 ! (2 * k + 1) = 0xFF)"
  proof (intro allI impI)
    fix k :: nat
    assume "k < 150"
    then show "(?t1 ! (2 * k) = 0xFF \<and> ?t1 ! (2 * k + 1) = 0xFF)
                 \<longleftrightarrow> (?t2 ! (2 * k) = 0xFF \<and> ?t2 ! (2 * k + 1) = 0xFF)"
      by (cases "k = 0") (simp_all add: nth_append nth_Cons')
  qed
  from decode_reads_offsets_as_flags [of "replicate 36 0xFF" ?t1 ?t2 "[4, 0]", OF _ _ _ this]
  have "samplesParser_decode (replicate 36 0xFF @ ?t1 @ [4, 0])
      = samplesParser_decode (replicate 36 0xFF @ ?t2 @ [4, 0])"
    by simp
  moreover have "samplesParser_decode (replicate 36 0xFF @ ?t2 @ [4, 0])
   = Inr \<lparr>reserved0 = Some 0xFFFFFFFF, reserved1 = Some 0xFFFFFFFF,
          reserved2 = Some 0xFFFFFFFF, reserved3 = Some 0xFFFFFFFF,
          pages = \<lparr>page_id = 0xFFFF,
                    loops = Some \<lparr>length_beats = 4, events = []\<rparr> # replicate 14 None\<rparr>
                  # replicate 9 emptyPage\<rparr>"
    by code_simp
  ultimately show ?thesis by simp
qed

section \<open>The presence flags in the decoder\<close>

text \<open>
  The encoder writes the offset entry of page \<open>p\<close>, slot \<open>s\<close> at position \<open>15 * p + s\<close> of
  the table (\<open>LOOPS_PER_PAGE\<close> entries per page). The decoder reads the table into
  \<open>loopExists\<close> in the same order, but then looks the flag of page \<open>p\<close>, slot \<open>s\<close> up at
  \<open>p * NUM_PAGES + s\<close>, which is \<open>10 * p + s\<close>. The two indices agree on page 0 and on no
  other page, so a flag is read for the wrong slot and a loop is decoded into the wrong
  slot, twice, or not at all.
\<close>

text \<open>
  Claim C1 (round trip), at a concrete pack. The pack with one loop at page 0, slot 10
  is valid and has 15 slots in each of its ten pages. Encoding succeeds, and decoding
  the result throws the \<open>RangeError\<close> of \<open>pop8\<close> on an empty array: page 1, slot 0 reads
  the flag at index 10, finds it set, and looks for a second loop. With the loop at
  page 9, slot 14 (flag 149, never read) the decoder returns a pack without any loop.
\<close>

theorem roundtrip_breaks_at_page_0_slot_10:
  "valid_pack (single_loop_pack 0 10 (one_event_loop 12 60 1 100)) \<and>
   list_all (\<lambda>page. length (loops page) = 15)
     (pages (single_loop_pack 0 10 (one_event_loop 12 60 1 100))) \<and>
   bindE (samplesParser_encode (single_loop_pack 0 10 (one_event_loop 12 60 1 100)))
     samplesParser_decode = Inl (RangeError PopEmpty) \<and>
   bindE (samplesParser_encode (single_loop_pack 9 14 (one_event_loop 12 60 1 100)))
     samplesParser_decode =
     Inr \<lparr>reserved0 = Some 0xFFFFFFFF, reserved1 = Some 0xFFFFFFFF,
          reserved2 = Some 0xFFFFFFFF, reserved3 = Some 0xFFFFFFFF,
          pages = replicate 9 emptyPage @ [\<lparr>page_id = 0xDEAD, loops = replicate 15 None\<rparr>]\<rparr>"
proof (intro conjI)
  show "valid_pack (single_loop_pack 0 10 (one_event_loop 12 60 1 100))"
    using valid_one_event_loop by (rule valid_pack_single)
  show "list_all (\<lambda>page. length (loops page) = 15)
     (pages (single_loop_pack 0 10 (one_event_loop 12 60 1 100)))"
    by (rule slots_single_15) simp
  show "bindE (samplesParser_encode (single_loop_pack 0 10 (one_event_loop 12 60 1 100)))
     samplesParser_decode = Inl (RangeError PopEmpty)"
    by code_simp
  show "bindE (samplesParser_encode (single_loop_pack 9 14 (one_event_loop 12 60 1 100)))
     samplesParser_decode =
     Inr \<lparr>reserved0 = Some 0xFFFFFFFF, reserved1 = Some 0xFFFFFFFF,
          reserved2 = Some 0xFFFFFFFF, reserved3 = Some 0xFFFFFFFF,
          pages = replicate 9 emptyPage @ [\<lparr>page_id = 0xDEAD, loops = replicate 15 None\<rparr>]\<rparr>"
    by code_simp
qed


text \<open>
  Claim C2 (truncation), at a concrete pack. The pack with one loop at page 9, slot 14
  is valid and encodes to 336 + 6 bytes. With the last byte removed, and with all six
  bytes of loop data removed, \<open>samplesParser_decode\<close> throws nothing: it returns a pack
  whose 150 slots are all empty.
\<close>

theorem truncated_buffer_decodes_without_error:
  "valid_pack (single_loop_pack 9 14 (one_event_loop 12 60 1 100)) \<and>
   (\<exists>bytes. samplesParser_encode (single_loop_pack 9 14 (one_event_loop 12 60 1 100)) = Inr bytes \<and>
      length bytes = 336 + 6) \<and>
   bindE (samplesParser_encode (single_loop_pack 9 14 (one_event_loop 12 60 1 100)))
     (\<lambda>bytes. samplesParser_decode (take (length bytes - 1) bytes)) =
     Inr \<lparr>reserved0 = Some 0xFFFFFFFF, reserved1 = Some 0xFFFFFFFF,
          reserved2 = Some 0xFFFFFFFF, reserved3 = Some 0xFFFFFFFF,
          pages = replicate 9 emptyPage @ [\<lparr>page_id = 0xDEAD, loops = replicate 15 None\<rparr>]\<rparr> \<and>
   bindE (samplesParser_encode (single_loop_pack 9 14 (one_event_loop 12 60 1 100)))
     (\<lambda>bytes. samplesParser_decode (take (length bytes - 6) bytes)) =
     Inr \<lparr>reserved0 = Some 0xFFFFFFFF, reserved1 = Some 0xFFFFFFFF,
          reserved2 = Some 0xFFFFFFFF, reserved3 = Some 0xFFFFFFFF,
          pages = replicate 9 emptyPage @ [\<lparr>page_id = 0xDEAD, loops = replicate 15 None\<rparr>]\<rparr>"
proof (intro conjI)
  let ?P = "single_loop_pack 9 14 (one_event_loop 12 60 1 100)"
  show v: "valid_pack ?P"
    using valid_one_event_loop by (rule valid_pack_single)
  have "getPackSize ?P = 6" by code_simp
  with valid_pack_encodes [OF v]
  show "\<exists>bytes. samplesParser_encode ?P = Inr bytes \<and> length bytes = 336 + 6"
    by simp
  show "bindE (samplesParser_encode ?P)
     (\<lambda>bytes. samplesParser_decode (take (length bytes - 1) bytes)) =
     Inr \<lparr>reserved0 = Some 0xFFFFFFFF, reserved1 = Some 0xFFFFFFFF,
          reserved2 = Some 0xFFFFFFFF, reserved3 = Some 0xFFFFFFFF,
          pages = replicate 9 emptyPage @ [\<lparr>page_id = 0xDEAD, loops = replicate 15 None\<rparr>]\<rparr>"
    by code_simp
  show "bindE (samplesParser_encode ?P)
     (\<lambda>bytes. samplesParser_decode (take (length bytes - 6) bytes)) =
     Inr \<lparr>reserved0 = Some 0xFFFFFFFF, reserved1 = Some 0xFFFFFFFF,
          reserved2 = Some 0xFFFFFFFF, reserved3 = Some 0xFFFFFFFF,
          pages = replicate 9 emptyPage @ [\<lparr>page_id = 0xDEAD, loops = replicate 15 None\<rparr>]\<rparr>"
    by code_simp
qed


text \<open>
  Claim C6 (masking), at concrete packs. An event with note 128 and velocity 255 in
  the loop at page 0, slot 0 comes back with note 0 and velocity 127. The same loop at
  page 0, slot 10 does not come back: decoding throws, as for claim C1.
\<close>

theorem masked_event_lost_at_page_0_slot_10:
  "bindE (samplesParser_encode (single_loop_pack 0 10 (one_event_loop 12 128 1 255)))
     samplesParser_decode = Inl (RangeError PopEmpty) \<and>
   bindE (samplesParser_encode (single_loop_pack 0 0 (one_event_loop 12 128 1 255)))
     samplesParser_decode = Inr (single_loop_pack 0 0 (one_event_loop 12 0 1 127))"
proof (intro conjI)
  show "bindE (samplesParser_encode (single_loop_pack 0 10 (one_event_loop 12 128 1 255)))
     samplesParser_decode = Inl (RangeError PopEmpty)"
    by code_simp
  show "bindE (samplesParser_encode (single_loop_pack 0 0 (one_event_loop 12 128 1 255)))
     samplesParser_decode = Inr (single_loop_pack 0 0 (one_event_loop 12 0 1 127))"
    by code_simp
qed

section \<open>Round trip of a single loop\<close>

text \<open>
  For a loop whose \<open>length_beats\<close> is within \<open>[0, 255]\<close>, with at most 255 events, every
  tick offset within \<open>[0, 65535]\<close> and every \<open>state\<close> 0 or 1 (note and velocity are
  arbitrary integers), the encoder's loop body always succeeds and appends the same
  \<open>2 + 4 * events\<close> bytes, and the decoder's loop body reads from those bytes the loop
  with each note and velocity reduced modulo 128, consuming exactly them.
\<close>

theorem loop_roundtrip_masks_note_and_velocity:
  assumes "other_fields_ok l" and "counts_and_ticks_ok l"
  shows "\<exists>bs. length bs = loop_size l \<and>
           (\<forall>d. encode_loop l d = Inr (d @ bs)) \<and>
           (\<forall>rest. decode_loop (bs @ rest)
              = Inr (\<lparr>length_beats = length_beats l, events = map mask_event (events l)\<rparr>, rest))"
  using assms by (rule loop_roundtrip_aux)

theorem loop_roundtrip_masks_note_and_velocity_witness:
  "encode_loop (one_event_loop 12 128 1 255) [] = Inr [4, 1, 0, 255, 12, 0] \<and>
   decode_loop ([4, 1, 0, 255, 12, 0] @ [7]) = Inr (one_event_loop 12 0 1 127, [7])"
proof -
  let ?l = "one_event_loop 12 128 1 255"
  have "other_fields_ok ?l" "counts_and_ticks_ok ?l"
    by (simp_all add: one_event_loop_def other_fields_ok_def counts_and_ticks_ok_def
          beats_ok_def state_ok_def ticks_ok_def)
  from loop_roundtrip_masks_note_and_velocity [OF this] obtain bs where
    bs: "\<forall>d. encode_loop ?l d = Inr (d @ bs)"
        "\<forall>rest. decode_loop (bs @ rest)
           = Inr (\<lparr>length_beats = length_beats ?l, events = map mask_event (events ?l)\<rparr>, rest)"
    by blast
  have e: "encode_loop ?l [] = Inr [4, 1, 0, 255, 12, 0]"
    by code_simp
  with bs(1) have "bs = [4, 1, 0, 255, 12, 0]" by simp
  with bs(2) have "decode_loop ([4, 1, 0, 255, 12, 0] @ [7])
      = Inr (\<lparr>length_beats = length_beats ?l, events = map mask_event (events ?l)\<rparr>, [7])"
    by blast
  then have "decode_loop ([4, 1, 0, 255, 12, 0] @ [7]) = Inr (one_event_loop 12 0 1 127, [7])"
    by (simp add: one_event_loop_def mask_event_def)
  with e show ?thesis by simp
qed

section \<open>The shape of a decoded pack\<close>

text \<open>
  Whenever \<open>samplesParser_decode\<close> returns a pack, the buffer had at least 336 bytes and
  the pack has ten pages of 15 slots each. Whatever it throws is a \<open>RangeError\<close>, and it
  throws on every buffer shorter than 336 bytes.
\<close>

theorem decode_result_shape:
  "(samplesParser_decode bytes = Inr pack \<longrightarrow>
      336 \<le> length bytes \<and> length (pages pack) = NUM_PAGES \<and>
      list_all (\<lambda>page. length (loops page) = LOOPS_PER_PAGE) (pages pack)) \<and>
   (samplesParser_decode bytes = Inl e \<longrightarrow> (\<exists>m. e = RangeError m)) \<and>
   (length bytes < 336 \<longrightarrow> (\<exists>m. samplesParser_decode bytes = Inl (RangeError m)))"
proof (intro conjI impI)
  assume "samplesParser_decode bytes = Inr pack"
  then show "336 \<le> length bytes" "length (pages pack) = NUM_PAGES"
    "list_all (\<lambda>page. length (loops page) = LOOPS_PER_PAGE) (pages pack)"
    by (simp_all add: samplesParser_decode_Inr)
next
  assume "samplesParser_decode bytes = Inl e"
  then show "\<exists>m. e = RangeError m" by (rule samplesParser_decode_Inl)
next
  assume s: "length bytes < 336"
  show "\<exists>m. samplesParser_decode bytes = Inl (RangeError m)"
  proof (cases "samplesParser_decode bytes")
    case (Inl e)
    with samplesParser_decode_Inl [OF Inl] show ?thesis by blast
  next
    case (Inr pack)
    with samplesParser_decode_Inr [OF Inr] s show ?thesis by simp
  qed
qed

theorem decode_result_shape_witness:
  "samplesParser_decode (replicate 335 0xFF) = Inl (RangeError NotEnough16) \<and>
   (\<exists>pack. samplesParser_decode (replicate 336 0xFF) = Inr pack \<and>
      length (pages pack) = 10 \<and> list_all (\<lambda>page. length (loops page) = 15) (pages pack))"
proof -
  have a: "samplesParser_decode (replicate 335 0xFF) = Inl (RangeError NotEnough16)"
    by code_simp
  have "samplesParser_decode (replicate 336 0xFF) =
      Inr \<lparr>reserved0 = Some 0xFFFFFFFF, reserved1 = Some 0xFFFFFFFF,
           reserved2 = Some 0xFFFFFFFF, reserved3 = Some 0xFFFFFFFF,
           pages = replicate 10 emptyPage\<rparr>"
    by code_simp
  then obtain pack where p: "samplesParser_decode (replicate 336 0xFF) = Inr pack"
    by blast
  with decode_result_shape [of "replicate 336 0xFF" pack]
  have "length (pages pack) = 10 \<and> list_all (\<lambda>page. length (loops page) = 15) (pages pack)"
    by (simp add: NUM_PAGES_def LOOPS_PER_PAGE_def)
  with a p show ?thesis by blast
qed

end
